theory Spec2Isabelle
  imports Main "HOL-Library.Word"
begin

section \<open>JavaScript strings\<close>

text \<open>
  A JavaScript string is a sequence of UTF-16 code units, and \<open>length\<close>, indexing,
  \<open>indexOf\<close> and \<open>substring\<close> all count code units. A code unit is a 16-bit word;
  \<open>cu\<close> embeds an ASCII character and \<open>js\<close> an ASCII literal.
\<close>

type_synonym jschar = "16 word"
type_synonym jsstring = "jschar list"

definition cu :: "char \<Rightarrow> jschar" where
  "cu c = of_nat (of_char c)"

definition js :: "string \<Rightarrow> jsstring" where
  "js cs = map cu cs"

definition backslash :: jschar where
  "backslash = 0x5C"

text \<open>\<open>s[i]\<close>: \<open>None\<close> stands for \<open>undefined\<close>, the value of an out-of-range read.\<close>

definition char_at :: "jsstring \<Rightarrow> nat \<Rightarrow> jschar option" where
  "char_at s i = (if i < length s then Some (s ! i) else None)"

text \<open>\<open>s.indexOf(c, start)\<close> for a one-character needle: the first position at or after
  \<open>start\<close> holding \<open>c\<close>, and \<open>-1\<close> when there is none.\<close>

definition indexOf :: "jsstring \<Rightarrow> jschar \<Rightarrow> nat \<Rightarrow> int" where
  "indexOf s c start =
     (case find (\<lambda>k. s ! k = c) [start..<length s] of None \<Rightarrow> - 1 | Some k \<Rightarrow> int k)"

text \<open>\<open>s.substring(a, b)\<close>: both arguments are clamped to \<open>[0, length]\<close> and swapped
  when the first is the larger.\<close>

definition substring :: "jsstring \<Rightarrow> int \<Rightarrow> int \<Rightarrow> jsstring" where
  "substring s a b =
     (let n = int (length s);
          a' = max 0 (min a n);
          b' = max 0 (min b n);
          lo = min a' b';
          hi = max a' b'
      in take (nat (hi - lo)) (drop (nat lo) s))"

definition startsWith :: "jsstring \<Rightarrow> jsstring \<Rightarrow> bool" where
  "startsWith s p = (take (length p) s = p)"

text \<open>\<open>s.includes(c)\<close> for a one-character needle.\<close>

definition includes_chr :: "jsstring \<Rightarrow> jschar \<Rightarrow> bool" where
  "includes_chr s c = (c \<in> set s)"

text \<open>\<open>s.split(c)\<close> for a one-character separator: the pieces between the separators.\<close>

fun split :: "jschar \<Rightarrow> jsstring \<Rightarrow> jsstring list" where
  "split c [] = [[]]"
| "split c (x # xs) =
     (if x = c then [] # split c xs
      else (case split c xs of p # ps \<Rightarrow> (x # p) # ps | [] \<Rightarrow> [[x]]))"

text \<open>\<open>parts.join(sep)\<close>.\<close>

fun join :: "jsstring \<Rightarrow> jsstring list \<Rightarrow> jsstring" where
  "join sep [] = []"
| "join sep [p] = p"
| "join sep (p # q # ps) = p @ sep @ join sep (q # ps)"

section \<open>The pattern explainer\<close>

record explanation =
  token :: jsstring
  description :: jsstring

definition createExplanation :: "jsstring \<Rightarrow> jsstring \<Rightarrow> explanation" where
  "createExplanation t d = \<lparr>token = t, description = d\<rparr>"

definition escapes :: "(jschar \<times> jsstring) list" where
  "escapes =
     [(cu CHR ''d'', js ''Matches any digit character [0-9]''),
      (cu CHR ''D'', js ''Matches any non-digit character''),
      (cu CHR ''w'', js ''Matches any word character [a-zA-Z0-9_]''),
      (cu CHR ''W'', js ''Matches any non-word character''),
      (cu CHR ''s'', js ''Matches any whitespace character''),
      (cu CHR ''S'', js ''Matches any non-whitespace character''),
      (cu CHR ''b'', js ''Matches a word boundary''),
      (cu CHR ''B'', js ''Matches a non-word boundary''),
      (cu CHR ''n'', js ''Matches a newline character''),
      (cu CHR ''r'', js ''Matches a carriage return''),
      (cu CHR ''t'', js ''Matches a tab character''),
      (cu CHR ''v'', js ''Matches a vertical tab character''),
      (cu CHR ''f'', js ''Matches a form feed character''),
      (cu CHR ''0'', js ''Matches a null character''),
      (backslash, js ''Matches a backslash literally'')]"

definition getEscapeExplanation :: "jschar \<Rightarrow> jsstring" where
  \<open>getEscapeExplanation char =
     (case map_of escapes char of
        Some d \<Rightarrow> d
      | None \<Rightarrow> js ''Escapes the character "'' @ [char] @ js ''"'')\<close>

definition getCharClassExplanation :: "jsstring \<Rightarrow> jsstring" where
  "getCharClassExplanation charClass =
     (if startsWith charClass (js ''[^'')
      then js ''Matches any character NOT in the set '' @
           substring charClass 2 (int (length charClass) - 1)
      else js ''Matches any character in the set '' @
           substring charClass 1 (int (length charClass) - 1))"

definition getGroupExplanation :: "jsstring \<Rightarrow> jsstring" where
  \<open>getGroupExplanation grp =
     (if startsWith grp (js ''(?:'') then js ''Non-capturing group''
      else if startsWith grp (js ''(?='') then js ''Positive lookahead assertion''
      else if startsWith grp (js ''(?!'') then js ''Negative lookahead assertion''
      else if startsWith grp (js ''(?<='') then js ''Positive lookbehind assertion''
      else if startsWith grp (js ''(?<!'') then js ''Negative lookbehind assertion''
      else if startsWith grp (js ''(?<'') then
        (let nameEnd = indexOf grp (cu CHR ''>'') 0;
             name = substring grp 3 nameEnd
         in js ''Named capturing group "'' @ name @ js ''"'')
      else js ''Capturing group'')\<close>

text \<open>In \<open>const [min, max] = content.split(',')\<close> the content holds a comma, so the split
  has at least two pieces; \<open>if (max)\<close> is false exactly for the empty string.\<close>

definition getQuantifierExplanation :: "jsstring \<Rightarrow> jsstring" where
  "getQuantifierExplanation quantifier =
     (let content = substring quantifier 1 (int (length quantifier) - 1)
      in if includes_chr content (cu CHR '','') then
           (let parts = split (cu CHR '','') content;
                min' = parts ! 0;
                max' = parts ! 1
            in if max' \<noteq> []
               then js ''Matches previous token between '' @ min' @ js '' and '' @ max' @ js '' times''
               else js ''Matches previous token '' @ min' @ js '' or more times'')
         else js ''Matches previous token exactly '' @ content @ js '' times'')"

definition getFlagsExplanation :: "jsstring \<Rightarrow> jsstring" where
  "getFlagsExplanation flags =
     join (js '', '')
       ((if includes_chr flags (cu CHR ''g'') then [js ''global (find all matches)''] else []) @
        (if includes_chr flags (cu CHR ''i'') then [js ''case insensitive''] else []) @
        (if includes_chr flags (cu CHR ''m'') then [js ''multiline (^ and $ match line breaks)''] else []) @
        (if includes_chr flags (cu CHR ''s'') then [js ''single line (. matches newlines)''] else []) @
        (if includes_chr flags (cu CHR ''u'') then [js ''unicode''] else []) @
        (if includes_chr flags (cu CHR ''y'') then [js ''sticky''] else []))"

text \<open>The inner loop of the \<open>(\<close> case: \<open>j\<close> runs to the parenthesis that closes the group,
  or to the end of the pattern. It is entered with \<open>j = i + 1\<close>, so \<open>pattern[j-1]\<close> is
  always in range.\<close>

function group_scan :: "jsstring \<Rightarrow> nat \<Rightarrow> nat \<Rightarrow> nat" where
  "group_scan pattern j depth =
     (if j < length pattern \<and> depth > 0 then
        (let depth1 = (if char_at pattern j = Some (cu CHR ''('') \<and>
                          char_at pattern (j - 1) \<noteq> Some backslash
                       then depth + 1 else depth);
             depth2 = (if char_at pattern j = Some (cu CHR '')'') \<and>
                          char_at pattern (j - 1) \<noteq> Some backslash
                       then depth1 - 1 else depth1)
         in group_scan pattern (j + 1) depth2)
      else j)"
  by pat_completeness auto
termination
  by (relation "measure (\<lambda>(pattern, j, depth). length pattern - j)") auto

declare group_scan.simps [simp del]

text \<open>One turn of the \<open>while\<close> loop of \<open>explain\<close>, entered with \<open>i < pattern.length\<close>:
  the explanations pushed by the \<open>switch\<close> and the new value of the cursor \<open>i\<close>.\<close>

definition explain_step :: "jsstring \<Rightarrow> nat \<Rightarrow> explanation list \<times> nat" where
  \<open>explain_step pattern i =
     (let char = pattern ! i in
      if char = cu CHR ''^'' then
        ([createExplanation (js ''^'') (js ''Asserts position at start of string or line'')], i + 1)
      else if char = cu CHR ''$'' then
        ([createExplanation (js ''$'') (js ''Asserts position at end of string or line'')], i + 1)
      else if char = cu CHR ''.'' then
        ([createExplanation (js ''.'')
            (js ''Matches any character (except newline unless s flag is set)'')], i + 1)
      else if char = cu CHR ''*'' then
        ([createExplanation (js ''*'') (js ''Matches previous token 0 or more times (greedy)'')], i + 1)
      else if char = cu CHR ''+'' then
        ([createExplanation (js ''+'') (js ''Matches previous token 1 or more times (greedy)'')], i + 1)
      else if char = cu CHR ''?'' then
        (if i > 0 \<and> (char_at pattern (i - 1) = Some (cu CHR ''*'') \<or>
                      char_at pattern (i - 1) = Some (cu CHR ''+'') \<or>
                      char_at pattern (i - 1) = Some (cu CHR ''?''))
         then ([createExplanation (js ''?'') (js ''Makes previous quantifier lazy (non-greedy)'')], i + 1)
         else ([createExplanation (js ''?'') (js ''Matches previous token 0 or 1 time'')], i + 1))
      else if char = backslash then
        (if i + 1 < length pattern then
           (let nextChar = pattern ! (i + 1);
                escapeSeq = [backslash, nextChar]
            in ([createExplanation escapeSeq (getEscapeExplanation nextChar)], i + 2))
         else ([], i + 1))
      else if char = cu CHR ''['' then
        (let endBracket = indexOf pattern (cu CHR '']'') i in
         if endBracket \<noteq> - 1 then
           (let charClass = substring pattern (int i) (endBracket + 1)
            in ([createExplanation charClass (getCharClassExplanation charClass)],
                nat (endBracket + 1)))
         else ([], i + 1))
      else if char = cu CHR ''('' then
        (let j = group_scan pattern (i + 1) 1;
             grp = substring pattern (int i) (int j)
         in ([createExplanation grp (getGroupExplanation grp)], j))
      else if char = cu CHR ''|'' then
        ([createExplanation (js ''|'') (js ''Alternation (OR operator)'')], i + 1)
      else if char = cu CHR ''{'' then
        (let endBrace = indexOf pattern (cu CHR ''}'') i in
         if endBrace \<noteq> - 1 then
           (let quantifier = substring pattern (int i) (endBrace + 1)
            in ([createExplanation quantifier (getQuantifierExplanation quantifier)],
                nat (endBrace + 1)))
         else ([], i + 1))
      else
        ([createExplanation [char]
            (js ''Matches the character "'' @ [char] @ js ''" literally'')], i + 1))\<close>

text \<open>The \<open>while (i < pattern.length)\<close> loop. A run that never leaves the loop has the
  value \<open>None\<close>.\<close>

partial_function (option) explain_loop ::
  "jsstring \<Rightarrow> nat \<Rightarrow> explanation list \<Rightarrow> explanation list option" where
  "explain_loop pattern i explanations =
     (if i < length pattern then
        (case explain_step pattern i of
           (pushed, i') \<Rightarrow> explain_loop pattern i' (explanations @ pushed))
      else Some explanations)"

declare explain_loop.simps [code]

text \<open>The array \<open>explanations\<close> as it is handed to \<open>formatExplanation\<close>: the tokens of
  the scan, then the flags entry when \<open>flags\<close> is a non-empty string.\<close>

definition explain_tokens :: "jsstring \<Rightarrow> jsstring \<Rightarrow> explanation list option" where
  "explain_tokens pattern flags =
     (case explain_loop pattern 0 [] of
        None \<Rightarrow> None
      | Some explanations \<Rightarrow>
          Some (if flags \<noteq> []
                then explanations @
                     [createExplanation (js ''Flags: '' @ flags) (getFlagsExplanation flags)]
                else explanations))"

text \<open>\<open>escapeHtml\<close> goes through the document object model of the browser; it is a
  parameter here.\<close>

definition formatExplanation :: "(jsstring \<Rightarrow> jsstring) \<Rightarrow> explanation list \<Rightarrow> jsstring" where
  \<open>formatExplanation escapeHtml explanations =
     foldl (\<lambda>html exp. html @
              js ''\<newline>                <div class="explanation-part">\<newline>                    <code>'' @
              escapeHtml (token exp) @
              js ''</code>\<newline>                    <span>'' @
              description exp @
              js ''</span>\<newline>                </div>\<newline>            '')
       (js ''<div class="regex-explanation">'') explanations
     @ js ''</div>''\<close>

definition explain :: "(jsstring \<Rightarrow> jsstring) \<Rightarrow> jsstring \<Rightarrow> jsstring \<Rightarrow> jsstring option" where
  "explain escapeHtml pattern flags =
     map_option (formatExplanation escapeHtml) (explain_tokens pattern flags)"


section \<open>The regular-expression engine of the host\<close>

text \<open>
  Compiling and matching are done by the host's \<open>RegExp\<close>: the repository has no
  matcher of its own. The host is a parameter \<open>native\<close>: it takes a pattern text and a
  flags text to a \<open>SyntaxError\<close> message or to a matcher, the \<open>[[RegExpMatcher]]\<close> of
  ECMA-262. A matcher is asked at one position of the subject and answers with the
  number of characters the match spans and the captures, \<open>None\<close> in a capture being
  \<open>undefined\<close>, the value of a group that did not take part. A character is a code unit,
  and a code point under the flags \<open>u\<close> and \<open>v\<close>. What the host builds around the
  matcher (the search loop of \<open>RegExp.prototype.exec\<close>, \<open>lastIndex\<close>, and
  \<open>String.prototype.replace\<close> with its replacement patterns) follows ECMA-262.
  Named groups are left out: the match engine replaces the host's \<open>groups\<close> object, and
  no replacement template below reads a name.
\<close>

type_synonym captures = "jsstring option list"
type_synonym matcher = "jsstring \<Rightarrow> nat \<Rightarrow> (nat \<times> captures) option"
type_synonym native = "jsstring \<Rightarrow> jsstring \<Rightarrow> jsstring + matcher"

record regexp =
  rx_source :: jsstring
  rx_flags :: jsstring
  rx_matcher :: matcher

text \<open>\<open>new RegExp(pattern, flags)\<close>; \<open>Inl\<close> is the \<open>SyntaxError\<close> thrown, with its
  message. A new object has \<open>lastIndex = 0\<close>; \<open>lastIndex\<close> is threaded through the
  calls of \<open>exec\<close> below.\<close>

definition RegExp :: "native \<Rightarrow> jsstring \<Rightarrow> jsstring \<Rightarrow> jsstring + regexp" where
  "RegExp native pattern flags =
     (case native pattern flags of
        Inl message \<Rightarrow> Inl message
      | Inr m \<Rightarrow> Inr \<lparr>rx_source = pattern, rx_flags = flags, rx_matcher = m\<rparr>)"

definition global_flag :: "regexp \<Rightarrow> bool" where
  "global_flag R = includes_chr (rx_flags R) (cu CHR ''g'')"

definition sticky_flag :: "regexp \<Rightarrow> bool" where
  "sticky_flag R = includes_chr (rx_flags R) (cu CHR ''y'')"

definition fullUnicode :: "regexp \<Rightarrow> bool" where
  "fullUnicode R =
     (includes_chr (rx_flags R) (cu CHR ''u'') \<or> includes_chr (rx_flags R) (cu CHR ''v''))"

definition is_lead :: "jschar \<Rightarrow> bool" where
  "is_lead c = (0xD800 \<le> c \<and> c \<le> 0xDBFF)"

definition is_trail :: "jschar \<Rightarrow> bool" where
  "is_trail c = (0xDC00 \<le> c \<and> c \<le> 0xDFFF)"

text \<open>\<open>AdvanceStringIndex(S, index, unicode)\<close>: one code unit, or the two of a surrogate
  pair when \<open>unicode\<close> is set.\<close>

definition AdvanceStringIndex :: "jsstring \<Rightarrow> nat \<Rightarrow> bool \<Rightarrow> nat" where
  "AdvanceStringIndex S index unicode =
     (if \<not> unicode then index + 1
      else if index + 1 \<ge> length S then index + 1
      else if is_lead (S ! index) \<and> is_trail (S ! (index + 1)) then index + 2
      else index + 1)"

text \<open>Where a match is tried for a given \<open>lastIndex\<close>: ``the index into the input of the
  character that was obtained from element \<open>lastIndex\<close> of \<open>S\<close>''. Under \<open>u\<close> or \<open>v\<close>
  the characters are code points, so a \<open>lastIndex\<close> on the second half of a surrogate pair
  stands for the code point that begins one code unit earlier.\<close>

definition input_index :: "jsstring \<Rightarrow> nat \<Rightarrow> bool \<Rightarrow> nat" where
  "input_index S lastIndex unicode =
     (if unicode \<and> 0 < lastIndex \<and> lastIndex < length S \<and>
         is_trail (S ! lastIndex) \<and> is_lead (S ! (lastIndex - 1))
      then lastIndex - 1 else lastIndex)"

text \<open>The end of a match of \<open>n\<close> characters that starts at \<open>start\<close>.\<close>

fun advance_chars :: "jsstring \<Rightarrow> nat \<Rightarrow> bool \<Rightarrow> nat \<Rightarrow> nat" where
  "advance_chars S start unicode 0 = start"
| "advance_chars S start unicode (Suc n) =
     advance_chars S (AdvanceStringIndex S start unicode) unicode n"

text \<open>The search loop of \<open>RegExpBuiltinExec\<close>: from \<open>lastIndex\<close> on, the first position
  where the matcher succeeds (only \<open>lastIndex\<close> itself for a sticky expression), as start,
  number of characters and captures.\<close>

function builtin_search :: "regexp \<Rightarrow> jsstring \<Rightarrow> nat \<Rightarrow> (nat \<times> nat \<times> captures) option" where
  "builtin_search R S lastIndex =
     (if lastIndex > length S then None
      else
        (let start = input_index S lastIndex (fullUnicode R) in
         case rx_matcher R S start of
           Some (n, caps) \<Rightarrow> Some (start, n, caps)
         | None \<Rightarrow>
             if sticky_flag R then None
             else builtin_search R S (AdvanceStringIndex S lastIndex (fullUnicode R))))"
  by pat_completeness auto
termination
  by (relation "measure (\<lambda>(R, S, lastIndex). length S + 1 - lastIndex)")
     (auto simp: AdvanceStringIndex_def)

declare builtin_search.simps [simp del]

text \<open>The array that \<open>exec\<close> returns: \<open>index\<close>, the elements (element 0 is the matched
  text, element \<open>i\<close> the capture of group \<open>i\<close>) and the property \<open>groups\<close>, which the host
  leaves \<open>undefined\<close> (\<open>None\<close>) when the expression has no named group.\<close>

record exec_result =
  index :: nat
  elems :: "jsstring option list"
  groups :: "(nat \<times> jsstring option) list option"

definition slice_units :: "jsstring \<Rightarrow> nat \<Rightarrow> nat \<Rightarrow> jsstring" where
  "slice_units S a b = take (b - a) (drop a S)"

text \<open>\<open>R.exec(S)\<close> with the \<open>lastIndex\<close> of \<open>R\<close> before the call: the result (\<open>None\<close>
  is \<open>null\<close>) and the \<open>lastIndex\<close> after it. Only a global or sticky expression reads and
  writes \<open>lastIndex\<close>; after a match it is the end of the match. The \<open>index\<close> of the
  result is the offset where the matched text begins, and element 0 is the text from there
  to the end of the match.\<close>

definition exec :: "regexp \<Rightarrow> jsstring \<Rightarrow> nat \<Rightarrow> exec_result option \<times> nat" where
  "exec R S lastIndex =
     (let uses = (global_flag R \<or> sticky_flag R);
          lastIndex0 = (if uses then lastIndex else 0)
      in case builtin_search R S lastIndex0 of
           None \<Rightarrow> (None, if uses then 0 else lastIndex)
         | Some (start, n, caps) \<Rightarrow>
             (let e = advance_chars S start (fullUnicode R) n
              in (Some \<lparr>index = start, elems = Some (slice_units S start e) # caps, groups = None\<rparr>,
                  if uses then e else lastIndex)))"

text \<open>\<open>result[0]\<close> as a string.\<close>

definition matched_text :: "exec_result \<Rightarrow> jsstring" where
  "matched_text result = (case elems result of Some m # _ \<Rightarrow> m | _ \<Rightarrow> [])"


subsection \<open>\<open>String.prototype.replace\<close> with a regular expression\<close>

text \<open>The matches that \<open>replace\<close> works on: one \<open>exec\<close> for an expression that is
  not global; for a global one, \<open>exec\<close> again and again, \<open>lastIndex\<close> being pushed past an
  empty match by \<open>AdvanceStringIndex\<close>.\<close>

function replace_collect ::
  "regexp \<Rightarrow> jsstring \<Rightarrow> nat \<Rightarrow> exec_result list \<Rightarrow> exec_result list" where
  "replace_collect rx S lastIndex results =
     (case exec rx S lastIndex of
        (None, _) \<Rightarrow> results
      | (Some result, lastIndex') \<Rightarrow>
          if \<not> global_flag rx then results @ [result]
          else if matched_text result = [] then
            replace_collect rx S (AdvanceStringIndex S lastIndex' (fullUnicode rx))
              (results @ [result])
          else replace_collect rx S lastIndex' (results @ [result]))"
  by pat_completeness auto
termination
proof -
  have adv: "i < AdvanceStringIndex S i u" for S i u
    by (simp add: AdvanceStringIndex_def)
  have chars_ge: "i \<le> advance_chars S i u n" for S i u n
  proof (induction n arbitrary: i)
    case 0
    show ?case by simp
  next
    case (Suc n)
    from Suc [of "AdvanceStringIndex S i u"] adv [of i S u] show ?case by simp
  qed
  have chars_step: "AdvanceStringIndex S i u \<le> advance_chars S i u (Suc n)" for S i u n
    using chars_ge [of "AdvanceStringIndex S i u" S u n] by simp
  have search: "\<exists>k. lastIndex \<le> k \<and> k \<le> length S \<and> start = input_index S k (fullUnicode R)"
    if "builtin_search R S lastIndex = Some (start, n, caps)" for R S lastIndex start n caps
    using that
  proof (induction R S lastIndex rule: builtin_search.induct)
    case (1 R S lastIndex)
    show ?case
    proof (cases "rx_matcher R S (input_index S lastIndex (fullUnicode R))")
      case None
      with "1.prems" have le: "\<not> length S < lastIndex" and ns: "\<not> sticky_flag R"
        and rec: "builtin_search R S (AdvanceStringIndex S lastIndex (fullUnicode R)) =
                    Some (start, n, caps)"
        by (auto simp: builtin_search.simps [of R S lastIndex] split: if_splits)
      from "1.IH" [OF le refl None ns rec]
      obtain k where "AdvanceStringIndex S lastIndex (fullUnicode R) \<le> k" "k \<le> length S"
        "start = input_index S k (fullUnicode R)" by blast
      with adv [of lastIndex S "fullUnicode R"] show ?thesis
        by (intro exI [of _ k]) simp
    next
      case (Some a)
      with "1.prems" show ?thesis
        by (intro exI [of _ lastIndex])
           (auto simp: builtin_search.simps [of R S lastIndex] split: if_splits)
    qed
  qed
  have progress: "lastIndex \<le> length S \<and>
      (if matched_text result = [] then lastIndex < AdvanceStringIndex S lastIndex' (fullUnicode rx)
       else lastIndex < lastIndex')"
    if ex: "exec rx S lastIndex = (Some result, lastIndex')" and g: "global_flag rx"
    for rx S lastIndex result lastIndex'
  proof -
    from ex g obtain start n caps where
      bs: "builtin_search rx S lastIndex = Some (start, n, caps)" and
      li': "lastIndex' = advance_chars S start (fullUnicode rx) n" and
      mt: "matched_text result = slice_units S start lastIndex'"
      by (auto simp: exec_def Let_def matched_text_def split: option.splits)
    from search [OF bs] obtain k where k: "lastIndex \<le> k" "k \<le> length S"
      "start = input_index S k (fullUnicode rx)" by blast
    let ?u = "fullUnicode rx"
    have ge: "start \<le> lastIndex'" using li' chars_ge by simp
    show ?thesis
    proof (cases "start = k")
      case True
      show ?thesis
      proof (cases "matched_text result = []")
        case True
        with \<open>start = k\<close> k ge adv [of lastIndex' S ?u] show ?thesis by simp
      next
        case False
        then have "start < lastIndex'" using mt by (simp add: slice_units_def)
        with False \<open>start = k\<close> k show ?thesis by simp
      qed
    next
      case False
      with k have pair: "?u" "0 < k" "k < length S" "is_trail (S ! k)" "is_lead (S ! (k - 1))"
        and st: "start = k - 1"
        by (auto simp: input_index_def split: if_splits)
      then have two: "AdvanceStringIndex S start ?u = k + 1"
        by (simp add: AdvanceStringIndex_def)
      show ?thesis
      proof (cases "matched_text result = []")
        case True
        then have "lastIndex' \<le> start" using mt st pair by (auto simp: slice_units_def)
        with ge have "lastIndex' = start" by simp
        with True two k show ?thesis by simp
      next
        case False
        then have "start < lastIndex'" using mt by (simp add: slice_units_def)
        then obtain n' where "n = Suc n'" using li' by (cases n) auto
        with chars_step [of S start ?u n'] li' two have "k + 1 \<le> lastIndex'" by simp
        with False k show ?thesis by simp
      qed
    qed
  qed
  show ?thesis
    apply (relation "measure (\<lambda>(rx, S, lastIndex, results). length S + 1 - lastIndex)")
      apply simp
    subgoal for rx S lastIndex results x y result
      using progress [of rx S lastIndex result y] by auto
    subgoal for rx S lastIndex results x y result
      using progress [of rx S lastIndex result y] by auto
    done
qed

declare replace_collect.simps [simp del]

definition dollar :: jschar where
  "dollar = cu CHR ''$''"

definition backtick :: jschar where
  "backtick = 0x60"

definition apostrophe :: jschar where
  "apostrophe = 0x27"

definition is_digit :: "jschar \<Rightarrow> bool" where
  "is_digit c = (0x30 \<le> c \<and> c \<le> 0x39)"

definition digit_value :: "jschar \<Rightarrow> nat" where
  "digit_value c = unat c - 48"

text \<open>Capture \<open>i\<close> (counted from 1) in a replacement: the empty string for \<open>undefined\<close>.\<close>

definition capture_text :: "captures \<Rightarrow> nat \<Rightarrow> jsstring" where
  "capture_text caps i = (case caps ! (i - 1) of None \<Rightarrow> [] | Some c \<Rightarrow> c)"

text \<open>\<open>GetSubstitution\<close>, the expansion of a replacement template for one match:
  \<open>$$\<close> is a dollar sign, \<open>$&\<close> the matched text, \<open>$`\<close> the subject before the match,
  \<open>$'\<close> the subject after it, \<open>$n\<close> and \<open>$nn\<close> a capture when the expression has a
  group of that number; everything else stands for itself.\<close>

fun GetSubstitution :: "jsstring \<Rightarrow> jsstring \<Rightarrow> nat \<Rightarrow> captures \<Rightarrow> jsstring \<Rightarrow> jsstring" where
  "GetSubstitution matched str position caps (c # d # rest) =
     (if c \<noteq> dollar then c # GetSubstitution matched str position caps (d # rest)
      else if d = dollar then dollar # GetSubstitution matched str position caps rest
      else if d = backtick then take position str @ GetSubstitution matched str position caps rest
      else if d = cu CHR ''&'' then matched @ GetSubstitution matched str position caps rest
      else if d = apostrophe then
        drop (position + length matched) str @ GetSubstitution matched str position caps rest
      else if is_digit d then
        (case rest of
           e # rest' \<Rightarrow>
             if is_digit e \<and> 10 * digit_value d + digit_value e \<le> length caps then
               (let i = 10 * digit_value d + digit_value e
                in (if 1 \<le> i then capture_text caps i else [c, d, e]) @
                   GetSubstitution matched str position caps rest')
             else
               (let i = digit_value d
                in (if 1 \<le> i \<and> i \<le> length caps then capture_text caps i else [c, d]) @
                   GetSubstitution matched str position caps rest)
         | [] \<Rightarrow>
             (let i = digit_value d
              in if 1 \<le> i \<and> i \<le> length caps then capture_text caps i else [c, d]))
      else c # GetSubstitution matched str position caps (d # rest))"
| "GetSubstitution matched str position caps [c] = [c]"
| "GetSubstitution matched str position caps [] = []"

text \<open>What takes the place of a match: a function of the matched text, the captures, the
  position and the subject.\<close>

type_synonym replacer = "jsstring \<Rightarrow> captures \<Rightarrow> nat \<Rightarrow> jsstring \<Rightarrow> jsstring"

text \<open>The result string is built match by match, left to right: the subject from the end
  of the match before up to this match, then the replacement; a match that begins before
  the end of the one before it is skipped. After the last match comes the rest of the
  subject.\<close>

definition replace_step ::
  "jsstring \<Rightarrow> replacer \<Rightarrow> jsstring \<times> nat \<Rightarrow> exec_result \<Rightarrow> jsstring \<times> nat" where
  "replace_step S f state result =
     (case state of (accumulatedResult, nextSourcePosition) \<Rightarrow>
        (let matched = matched_text result;
             position = min (index result) (length S);
             replacement = f matched (tl (elems result)) position S
         in if position \<ge> nextSourcePosition
            then (accumulatedResult @ slice_units S nextSourcePosition position @ replacement,
                  position + length matched)
            else (accumulatedResult, nextSourcePosition)))"

definition replace_finish :: "jsstring \<Rightarrow> jsstring \<times> nat \<Rightarrow> jsstring" where
  "replace_finish S state =
     (case state of (accumulatedResult, nextSourcePosition) \<Rightarrow>
        if nextSourcePosition \<ge> length S then accumulatedResult
        else accumulatedResult @ drop nextSourcePosition S)"

definition replace_build :: "jsstring \<Rightarrow> replacer \<Rightarrow> exec_result list \<Rightarrow> jsstring" where
  "replace_build S f results = replace_finish S (foldl (replace_step S f) ([], 0) results)"

text \<open>\<open>S.replace(rx, f)\<close> for an expression whose \<open>lastIndex\<close> is 0, with a replacer
  function and with a replacement template.\<close>

definition replace_with :: "regexp \<Rightarrow> jsstring \<Rightarrow> replacer \<Rightarrow> jsstring" where
  "replace_with rx S f = replace_build S f (replace_collect rx S 0 [])"

definition replace :: "jsstring \<Rightarrow> regexp \<Rightarrow> jsstring \<Rightarrow> jsstring" where
  "replace S rx template =
     replace_with rx S (\<lambda>matched caps position str. GetSubstitution matched str position caps template)"


section \<open>The match engine\<close>

text \<open>A regular-expression literal of the source that matches two given code units in a
  row, such as \<open>/\\A/g\<close> (a backslash, then \<open>A\<close>) and \<open>/\$&/g\<close>.\<close>

definition pair_matcher :: "jschar \<Rightarrow> jschar \<Rightarrow> matcher" where
  "pair_matcher a b S start =
     (if char_at S start = Some a \<and> char_at S (start + 1) = Some b then Some (2, []) else None)"

definition pair_regex :: "jschar \<Rightarrow> jschar \<Rightarrow> regexp" where
  "pair_regex a b =
     \<lparr>rx_source = [backslash, a, b], rx_flags = js ''g'', rx_matcher = pair_matcher a b\<rparr>"

text \<open>The flavour converters. \<open>convertPCREToJS\<close> is three \<open>replace\<close> calls with the
  literals \<open>/\\A/g\<close>, \<open>/\\Z/g\<close> and \<open>/\\z/g\<close>; the other two return the pattern.\<close>

definition pcre_regex :: "jschar \<Rightarrow> regexp" where
  "pcre_regex a =
     \<lparr>rx_source = [backslash, backslash, a], rx_flags = js ''g'',
      rx_matcher = pair_matcher backslash a\<rparr>"

definition convertPCREToJS :: "jsstring \<Rightarrow> jsstring" where
  "convertPCREToJS pattern =
     replace (replace (replace pattern (pcre_regex (cu CHR ''A'')) (js ''^''))
                (pcre_regex (cu CHR ''Z'')) (js ''$''))
       (pcre_regex (cu CHR ''z'')) (js ''$'')"

definition convertPythonToJS :: "jsstring \<Rightarrow> jsstring" where
  "convertPythonToJS pattern = pattern"

definition convertGoToJS :: "jsstring \<Rightarrow> jsstring" where
  "convertGoToJS pattern = pattern"

text \<open>\<open>createRegex\<close>: \<open>Inl\<close> is the \<open>Error\<close> thrown, with its message.\<close>

definition createRegex :: "native \<Rightarrow> jsstring \<Rightarrow> jsstring \<Rightarrow> jsstring \<Rightarrow> jsstring + regexp" where
  "createRegex native pattern flags flavor =
     (let adjustedPattern =
            (if flavor = js ''pcre'' then convertPCREToJS pattern
             else if flavor = js ''python'' then convertPythonToJS pattern
             else if flavor = js ''golang'' then convertGoToJS pattern
             else pattern);
          adjustedFlags = flags
      in case RegExp native adjustedPattern adjustedFlags of
           Inl message \<Rightarrow> Inl (js ''Invalid regular expression: '' @ message)
         | Inr regex \<Rightarrow> Inr regex)"

text \<open>``Add groups information'': when the match has more than one element, \<open>groups\<close>
  becomes a fresh object and the loop \<open>for (i = 1; i < match.length; i++)\<close> assigns
  \<open>match.groups[i] = match[i]\<close>, also when \<open>match[i]\<close> is \<open>undefined\<close>. The object is the
  list of its properties, each a key with its value, \<open>None\<close> being the value \<open>undefined\<close>.\<close>

definition add_groups :: "exec_result \<Rightarrow> exec_result" where
  "add_groups match =
     (if length (elems match) > 1
      then match\<lparr>groups := Some (map (\<lambda>i. (i, elems match ! i)) [1..<length (elems match)])\<rparr>
      else match)"

text \<open>The loop \<open>while ((match = globalRegex.exec(testString)) !== null)\<close>, with the
  \<open>lastIndex\<close> of \<open>globalRegex\<close> before the call of \<open>exec\<close> and the array \<open>matches\<close>.
  A run that never leaves the loop has the value \<open>None\<close>.\<close>

partial_function (option) findMatches_loop ::
  "regexp \<Rightarrow> jsstring \<Rightarrow> nat \<Rightarrow> exec_result list \<Rightarrow> exec_result list option" where
  "findMatches_loop globalRegex testString lastIndex matches =
     (case exec globalRegex testString lastIndex of
        (None, _) \<Rightarrow> Some matches
      | (Some match, lastIndex') \<Rightarrow>
          findMatches_loop globalRegex testString
            (if index match = lastIndex' then lastIndex' + 1 else lastIndex')
            (matches @ [add_groups match]))"

declare findMatches_loop.simps [code]

text \<open>\<open>findMatches\<close>. \<open>new RegExp(regex.source, regex.flags)\<close> is the same expression
  again, with \<open>lastIndex = 0\<close>; \<open>regex\<close> itself comes from \<open>createRegex\<close> and has
  \<open>lastIndex = 0\<close> as well.\<close>

definition findMatches :: "regexp \<Rightarrow> jsstring \<Rightarrow> bool \<Rightarrow> exec_result list option" where
  "findMatches regex testString isGlobal =
     (if isGlobal then findMatches_loop regex testString 0 []
      else (case fst (exec regex testString 0) of
              Some match \<Rightarrow> Some [add_groups match]
            | None \<Rightarrow> Some []))"

record execute_result =
  matches :: "exec_result list"
  res_pattern :: jsstring
  res_flags :: jsstring
  res_testString :: jsstring
  res_flavor :: jsstring

text \<open>\<open>execute\<close>: \<open>None\<close> when the call never returns, \<open>Some (Inl message)\<close> when it
  throws \<open>Error(message)\<close>, and \<open>Some (Inr result)\<close> when it returns \<open>result\<close>.\<close>

definition execute ::
  "native \<Rightarrow> jsstring \<Rightarrow> jsstring \<Rightarrow> jsstring \<Rightarrow> jsstring \<Rightarrow> (jsstring + execute_result) option" where
  "execute native pattern flags testString flavor =
     (case createRegex native pattern flags flavor of
        Inl message \<Rightarrow> Some (Inl (js ''Regex Error: '' @ message))
      | Inr regex \<Rightarrow>
          (case findMatches regex testString (includes_chr flags (cu CHR ''g'')) of
             None \<Rightarrow> None
           | Some ms \<Rightarrow>
               Some (Inr \<lparr>matches = ms, res_pattern = pattern, res_flags = flags,
                          res_testString = testString, res_flavor = flavor\<rparr>)))"

section \<open>The substitution engine\<close>

text \<open>The literals \<open>/\$(\d+)/g\<close> and \<open>/\$\{(\d+)\}/g\<close>: a dollar sign and one or more
  digits, the digits being group 1; in the second, the digits stand in braces.\<close>

definition numbered_matcher :: matcher where
  "numbered_matcher S start =
     (if char_at S start = Some dollar then
        (let num = takeWhile is_digit (drop (start + 1) S)
         in if num \<noteq> [] then Some (1 + length num, [Some num]) else None)
      else None)"

definition bracket_matcher :: matcher where
  "bracket_matcher S start =
     (if char_at S start = Some dollar \<and> char_at S (start + 1) = Some (cu CHR ''{'') then
        (let num = takeWhile is_digit (drop (start + 2) S)
         in if num \<noteq> [] \<and> char_at S (start + 2 + length num) = Some (cu CHR ''}'')
            then Some (3 + length num, [Some num]) else None)
      else None)"

definition numbered_regex :: regexp where
  "numbered_regex =
     \<lparr>rx_source = [backslash] @ js ''$('' @ [backslash] @ js ''d+)'', rx_flags = js ''g'',
      rx_matcher = numbered_matcher\<rparr>"

definition bracket_regex :: regexp where
  "bracket_regex =
     \<lparr>rx_source = [backslash] @ js ''$'' @ [backslash] @ js ''{('' @ [backslash] @ js ''d+)'' @
                  [backslash] @ js ''}'',
      rx_flags = js ''g'', rx_matcher = bracket_matcher\<rparr>"

text \<open>The replacer \<open>(match, num) => `$${num}`\<close> of the first two calls: a dollar sign and
  the text of group 1.\<close>

definition dollar_num :: replacer where
  "dollar_num matched caps position str =
     (case caps of Some num # _ \<Rightarrow> dollar # num | _ \<Rightarrow> js ''$undefined'')"

text \<open>\<open>processedReplacement\<close>: the five \<open>replace\<close> calls on the replacement string, the
  last three with the replacement templates \<open>'$&'\<close>, \<open>'$`'\<close> and \<open>"$'"\<close>.\<close>

definition processedReplacement :: "jsstring \<Rightarrow> jsstring" where
  "processedReplacement replacement =
     replace
       (replace
          (replace
             (replace_with bracket_regex
                (replace_with numbered_regex replacement dollar_num)
                dollar_num)
             (pair_regex dollar (cu CHR ''&'')) [dollar, cu CHR ''&''])
          (pair_regex dollar backtick) [dollar, backtick])
       (pair_regex dollar apostrophe) [dollar, apostrophe]"

text \<open>\<open>substitute\<close>: the constructor is the one call in the \<open>try\<close> block that can throw,
  and the \<open>catch\<close> returns \<open>testString\<close>.\<close>

definition substitute :: "native \<Rightarrow> jsstring \<Rightarrow> jsstring \<Rightarrow> jsstring \<Rightarrow> jsstring \<Rightarrow> jsstring" where
  "substitute native pattern flags testString replacement =
     (case RegExp native pattern flags of
        Inl error \<Rightarrow> testString
      | Inr regex \<Rightarrow> replace testString regex (processedReplacement replacement))"


section \<open>A host for the examples\<close>

text \<open>What the host's compiler answers on the patterns of the examples below, as
  ECMA-262 defines them: \<open>c*\<close> matches at every position and spans the run of \<open>c\<close> that
  begins there; \<open>(a)|b\<close> matches one \<open>a\<close>, which group 1 captures, or one \<open>b\<close>, and
  then group 1 has not taken part; \<open>(a)|(b)\<close> matches one \<open>a\<close>, which group 1 captures
  while group 2 has not taken part, or one \<open>b\<close>, which group 2 captures while group 1
  has not taken part; \<open>(\<close> is a syntax error, and so is a flags text that repeats a flag
  or has a letter other than \<open>dgimsuvy\<close>. Every other pattern is refused: no example
  uses one.\<close>

definition valid_flags :: "jsstring \<Rightarrow> bool" where
  "valid_flags flags =
     (distinct flags \<and> set flags \<subseteq> set (js ''dgimsuvy'') \<and>
      \<not> (includes_chr flags (cu CHR ''u'') \<and> includes_chr flags (cu CHR ''v'')))"

definition star_matcher :: "jschar \<Rightarrow> matcher" where
  "star_matcher c S start = Some (length (takeWhile (\<lambda>x. x = c) (drop start S)), [])"

definition alt_matcher :: matcher where
  "alt_matcher S start =
     (if char_at S start = Some (cu CHR ''a'') then Some (1, [Some (js ''a'')])
      else if char_at S start = Some (cu CHR ''b'') then Some (1, [None])
      else None)"

definition alt2_matcher :: matcher where
  "alt2_matcher S start =
     (if char_at S start = Some (cu CHR ''a'') then Some (1, [Some (js ''a''), None])
      else if char_at S start = Some (cu CHR ''b'') then Some (1, [None, Some (js ''b'')])
      else None)"

definition sample_host :: native where
  "sample_host pattern flags =
     (if \<not> valid_flags flags then Inl (js ''Invalid flags'')
      else if pattern = js ''a*'' then Inr (star_matcher (cu CHR ''a''))
      else if pattern = js ''x*'' then Inr (star_matcher (cu CHR ''x''))
      else if pattern = js ''(a)|b'' then Inr alt_matcher
      else if pattern = js ''(a)|(b)'' then Inr alt2_matcher
      else if pattern = js ''('' then Inl (js ''Unterminated group'')
      else Inl (js ''not a pattern of the examples''))"


text \<open>The pattern \<open>(?<year>\d{4})\<close> of the named-group example.\<close>

definition year_pattern :: jsstring where
  "year_pattern = js ''(?<year>'' @ [backslash] @ js ''d{4})''"

text \<open>The start offsets of the matches in what \<open>execute\<close> returns.\<close>

definition match_offsets :: "(jsstring + execute_result) option \<Rightarrow> nat list option" where
  "match_offsets r =
     (case r of Some (Inr result) \<Rightarrow> Some (map index (matches result)) | _ \<Rightarrow> None)"

text \<open>A match whose \<open>groups\<close> object lists every index from 1 on with the element of the
  match at that index.\<close>

definition grouped :: "exec_result \<Rightarrow> bool" where
  "grouped match =
     (length (elems match) > 1 \<longrightarrow>
      groups match = Some (map (\<lambda>i. (i, elems match ! i)) [1..<length (elems match)]))"

text \<open>What \<open>execute\<close> returns for \<open>(a)|(b)\<close> on the subject \<open>a\<close>, without flags.\<close>

definition alt_a_match :: exec_result where
  "alt_a_match =
     \<lparr>index = 0, elems = [Some (js ''a''), Some (js ''a''), None],
      groups = Some [(1, Some (js ''a'')), (2, None)]\<rparr>"

definition alt_a_result :: execute_result where
  "alt_a_result =
     \<lparr>matches = [alt_a_match],
      res_pattern = js ''(a)|(b)'', res_flags = [], res_testString = js ''a'',
      res_flavor = js ''javascript''\<rparr>"

text \<open>The subject of one character outside the basic plane, U+1F600, which is the
  surrogate pair \<open>D83D DE00\<close>; and the expression that \<open>createRegex\<close> returns for the
  pattern \<open>x*\<close> with the flags \<open>gu\<close> on the host of the examples.\<close>

definition grinning_face :: jsstring where
  "grinning_face = [0xD83D, 0xDE00]"

definition star_x_unicode :: regexp where
  "star_x_unicode =
     \<lparr>rx_source = js ''x*'', rx_flags = js ''gu'', rx_matcher = star_matcher (cu CHR ''x'')\<rparr>"

text \<open>The invariant of the global loop: the matches collected so far begin at strictly
  increasing offsets, all before \<open>lastIndex\<close>; and \<open>lastIndex\<close> is the start of a
  character, or else the character it falls into is one where the expression matches
  the empty string.\<close>

definition loop_inv :: "regexp \<Rightarrow> jsstring \<Rightarrow> nat \<Rightarrow> exec_result list \<Rightarrow> bool" where
  "loop_inv R S lastIndex acc =
     (sorted_wrt (<) (map index acc) \<and> (\<forall>m\<in>set acc. index m < lastIndex) \<and>
      (input_index S lastIndex (fullUnicode R) = lastIndex \<or>
       (\<exists>caps. rx_matcher R S (input_index S lastIndex (fullUnicode R)) = Some (0, caps))))"

text \<open>What \<open>execute\<close> returns for \<open>a*\<close> with the flag \<open>g\<close> on the subject \<open>baab\<close>.\<close>

definition star_baab_result :: execute_result where
  "star_baab_result =
     \<lparr>matches =
        [\<lparr>index = 0, elems = [Some []], groups = None\<rparr>,
         \<lparr>index = 1, elems = [Some (js ''aa'')], groups = None\<rparr>,
         \<lparr>index = 3, elems = [Some []], groups = None\<rparr>,
         \<lparr>index = 4, elems = [Some []], groups = None\<rparr>],
      res_pattern = js ''a*'', res_flags = js ''g'', res_testString = js ''baab'',
      res_flavor = js ''javascript''\<rparr>"

text \<open>The code unit \<open>a\<close> stands directly before the code unit \<open>b\<close> somewhere in \<open>S\<close>.\<close>

definition has_pair :: "jsstring \<Rightarrow> jschar \<Rightarrow> jschar \<Rightarrow> bool" where
  "has_pair S a b = ((a, b) \<in> set (zip S (tl S)))"

text \<open>The pattern \<open>\Ab\<close>.\<close>

definition pcre_sample :: jsstring where
  "pcre_sample = [backslash] @ js ''Ab''"

text \<open>The rewriting of bracketed references, read from left to right. \<open>bracket_ref\<close>
  tells whether a template begins with a bracketed reference \<open>${N}\<close>, where \<open>N\<close> is
  one or more decimal digits, and gives \<open>N\<close> and the rest of the template. \<open>unbrace\<close>
  replaces each bracketed reference with \<open>$N\<close> and copies every other code unit.\<close>

definition bracket_ref :: "jsstring \<Rightarrow> (jsstring \<times> jsstring) option" where
  "bracket_ref template =
     (case template of
        c # b # after \<Rightarrow>
          if c = dollar \<and> b = cu CHR ''{'' then
            (case dropWhile is_digit after of
               e # rest \<Rightarrow>
                 if takeWhile is_digit after \<noteq> [] \<and> e = cu CHR ''}''
                 then Some (takeWhile is_digit after, rest) else None
             | [] \<Rightarrow> None)
          else None
      | _ \<Rightarrow> None)"

function unbrace :: "jsstring \<Rightarrow> jsstring" where
  "unbrace template =
     (case bracket_ref template of
        Some (num, rest) \<Rightarrow> dollar # num @ unbrace rest
      | None \<Rightarrow> (case template of [] \<Rightarrow> [] | c # rest \<Rightarrow> c # unbrace rest))"
  by pat_completeness auto
termination
proof (relation "measure length")
  show "wf (measure length)" by simp
next
  fix template :: jsstring and x2 x y
  assume "bracket_ref template = Some x2" and "(x, y) = x2"
  then have "bracket_ref template = Some (x, y)" by simp
  then obtain c b after e where "template = c # b # after" "dropWhile is_digit after = e # y"
    by (auto simp: bracket_ref_def split: list.splits if_splits)
  moreover have "length (dropWhile is_digit after) \<le> length after"
    by (rule length_dropWhile_le)
  ultimately show "(y, template) \<in> measure length" by simp
next
  fix template :: jsstring and x21 x22
  assume "template = x21 # x22"
  then show "(x22, template) \<in> measure length" by simp
qed

declare unbrace.simps [simp del]

section \<open>The explainer returns for every pattern\<close>

lemma indexOf_bounds:
  assumes "indexOf s c start \<noteq> - 1"
  shows "int start \<le> indexOf s c start \<and> indexOf s c start < int (length s)"
proof (cases "find (\<lambda>k. s ! k = c) [start..<length s]")
  case None
  with assms show ?thesis by (simp add: indexOf_def)
next
  case (Some k)
  then have "k \<in> set [start..<length s]"
    by (auto simp: find_Some_iff)
  with Some show ?thesis by (simp add: indexOf_def)
qed

lemma group_scan_bounds:
  "j \<le> length p \<Longrightarrow> j \<le> group_scan p j d \<and> group_scan p j d \<le> length p"
proof (induction "length p - j" arbitrary: j d rule: less_induct)
  case less
  show ?case
  proof (cases "j < length p \<and> d > 0")
    case True
    have IH: "j + 1 \<le> group_scan p (j + 1) d' \<and> group_scan p (j + 1) d' \<le> length p" for d'
      using less.hyps [of "j + 1" d'] True by auto
    have "j \<le> group_scan p (j + 1) d'" for d'
      using IH [of d'] by linarith
    with True IH show ?thesis
      by (simp add: group_scan.simps [of p j d] Let_def)
  next
    case False
    with less.prems show ?thesis
      by (auto simp: group_scan.simps [of p j d])
  qed
qed

text \<open>Every branch of the \<open>switch\<close> moves the cursor forward, and never past the end of
  the pattern.\<close>

lemma explain_step_advances:
  assumes "i < length pattern"
  shows "i < snd (explain_step pattern i) \<and> snd (explain_step pattern i) \<le> length pattern"
proof -
  have b: "indexOf pattern c i \<noteq> - 1 \<Longrightarrow>
           i < nat (indexOf pattern c i + 1) \<and> nat (indexOf pattern c i + 1) \<le> length pattern" for c
    using indexOf_bounds [of pattern c i] by linarith
  have g: "i < group_scan pattern (i + 1) 1 \<and> group_scan pattern (i + 1) 1 \<le> length pattern"
    using group_scan_bounds [of "i + 1" pattern 1] assms by simp
  have "i < n \<and> n \<le> length pattern" if "n = snd (explain_step pattern i)" for n
    using that assms b [of "cu CHR '']''"] b [of "cu CHR ''}''"] g
    unfolding explain_step_def Let_def
    apply (simp only: if_distrib [where f = snd] snd_conv)
    apply (simp split: if_splits)
    done
  then show ?thesis by simp
qed

lemma explain_loop_total:
  "i \<le> length pattern \<Longrightarrow> \<exists>r. explain_loop pattern i acc = Some r"
proof (induction "length pattern - i" arbitrary: i acc rule: less_induct)
  case less
  show ?case
  proof (cases "i < length pattern")
    case True
    obtain pushed i' where st: "explain_step pattern i = (pushed, i')"
      by (cases "explain_step pattern i")
    with explain_step_advances [OF True] have adv: "i < i'" "i' \<le> length pattern" by simp_all
    then have "length pattern - i' < length pattern - i" using True by simp
    from less.hyps [OF this adv(2)] obtain r where "explain_loop pattern i' (acc @ pushed) = Some r"
      by blast
    with True st show ?thesis by (subst explain_loop.simps) simp
  next
    case False
    then show ?thesis by (subst explain_loop.simps) simp
  qed
qed

text \<open>
  C9. \<open>explain\<close> returns for every pattern string and every flags string: the scan
  leaves its loop, whatever the pattern (a backslash at the end, a character class, a
  brace quantifier or a group that is never closed), and no step of it can throw.
\<close>

theorem explain_total: "\<exists>html. explain escapeHtml pattern flags = Some html"
  using explain_loop_total [of 0 pattern "[]"]
  by (auto simp: explain_def explain_tokens_def)

section \<open>The named-group example\<close>

text \<open>
  C2, as stated, asks for three entries in the explanation of \<open>(?<year>\d{4})\<close>: one
  that names the group, one for \<open>\d\<close> and one for \<open>{4}\<close>. The \<open>(\<close> case takes the whole
  group as one token and does not look inside it, so the sequence has no entry whose
  token is \<open>\d\<close> and none whose token is \<open>{4}\<close>.
\<close>

theorem explain_year_no_inner_tokens:
  "[backslash, cu CHR ''d''] \<notin> set (map token (the (explain_tokens year_pattern []))) \<and>
   js ''{4}'' \<notin> set (map token (the (explain_tokens year_pattern [])))"
  by (simp add: year_pattern_def explain_tokens_def explain_loop.simps explain_step_def
        group_scan.simps char_at_def substring_def getGroupExplanation_def startsWith_def
        indexOf_def createExplanation_def js_def cu_def backslash_def)

text \<open>
  C2, amended. The explanation of \<open>(?<year>\d{4})\<close> with empty flags is a sequence of one
  entry: its token is the whole group and its description is
  \<open>Named capturing group "year"\<close>.
\<close>

theorem explain_year_single_token:
  \<open>explain_tokens year_pattern [] =
     Some [\<lparr>token = year_pattern, description = js ''Named capturing group "year"''\<rparr>]\<close>
  by (simp add: year_pattern_def explain_tokens_def explain_loop.simps explain_step_def
        group_scan.simps char_at_def substring_def getGroupExplanation_def startsWith_def
        indexOf_def createExplanation_def js_def cu_def backslash_def)


section \<open>The groups object of a match\<close>

lemma grouped_add_groups: "grouped (add_groups match)"
  by (simp add: grouped_def add_groups_def)

lemma findMatches_loop_grouped:
  assumes "findMatches_loop R S lastIndex acc = Some ms"
  shows "(\<forall>m\<in>set acc. grouped m) \<longrightarrow> (\<forall>m\<in>set ms. grouped m)"
proof (rule findMatches_loop.raw_induct
    [where P = "\<lambda>R S lastIndex acc ms. (\<forall>m\<in>set acc. grouped m) \<longrightarrow> (\<forall>m\<in>set ms. grouped m)"])
  fix loop R S lastIndex acc ms
  assume IH: "\<And>R S lastIndex acc ms. loop R S lastIndex acc = Some ms \<Longrightarrow>
                (\<forall>m\<in>set acc. grouped m) \<longrightarrow> (\<forall>m\<in>set ms. grouped m)"
    and step: "(case exec R S lastIndex of
                  (None, x) \<Rightarrow> Some acc
                | (Some match, x) \<Rightarrow>
                    loop R S (if index match = x then x + 1 else x) (acc @ [add_groups match])) =
               Some ms"
  show "(\<forall>m\<in>set acc. grouped m) \<longrightarrow> (\<forall>m\<in>set ms. grouped m)"
  proof (cases "exec R S lastIndex")
    case (Pair r lastIndex')
    show ?thesis
    proof (cases r)
      case None
      with Pair step show ?thesis by simp
    next
      case (Some match)
      with Pair step have
        "loop R S (if index match = lastIndex' then lastIndex' + 1 else lastIndex')
           (acc @ [add_groups match]) = Some ms" by simp
      from IH [OF this] show ?thesis by (simp add: grouped_add_groups)
    qed
  qed
next
  show "findMatches_loop R S lastIndex acc = Some ms" by fact
qed

lemma findMatches_grouped:
  assumes "findMatches regex S isGlobal = Some ms" and "m \<in> set ms"
  shows "grouped m"
proof (cases isGlobal)
  case True
  with assms(1) have "findMatches_loop regex S 0 [] = Some ms" by (simp add: findMatches_def)
  from findMatches_loop_grouped [OF this] assms(2) show ?thesis by simp
next
  case False
  with assms show ?thesis
    by (auto simp: findMatches_def grouped_add_groups split: option.splits)
qed

text \<open>
  C1, as stated, says that for a match with more than one capture group the mapping
  attached to it leaves out the index of a group that did not take part. The pattern
  \<open>(a)|(b)\<close> has two capture groups; on the subject \<open>b\<close> group 1 did not take part, and
  the mapping of the one match has the key 1 all the same, with the value \<open>undefined\<close>.
\<close>

theorem execute_groups_undefined_entry:
  "execute sample_host (js ''(a)|(b)'') [] (js ''b'') (js ''javascript'') =
     Some (Inr
       \<lparr>matches =
          [\<lparr>index = 0, elems = [Some (js ''b''), None, Some (js ''b'')],
            groups = Some [(1, None), (2, Some (js ''b''))]\<rparr>],
        res_pattern = js ''(a)|(b)'', res_flags = [], res_testString = js ''b'',
        res_flavor = js ''javascript''\<rparr>)"
  by code_simp

text \<open>
  C1, amended. For every match that \<open>execute\<close> returns with more than one capture group
  (the elements of a match after the first are its capture groups), the mapping attached
  to it has every index from 1 to the number of groups as a key, in this order, and the
  value at index \<open>i\<close> is element \<open>i\<close> of the match: the captured text, or \<open>undefined\<close>
  for a group that did not take part (which is not the empty string). No index is left
  out.
\<close>

theorem execute_groups:
  assumes "execute native pattern flags testString flavor = Some (Inr result)"
    and "match \<in> set (matches result)"
    and "1 < length (tl (elems match))"
  shows "groups match = Some (map (\<lambda>i. (i, elems match ! i)) [1..<length (elems match)])"
proof -
  from assms(1) obtain regex where
    "findMatches regex testString (includes_chr flags (cu CHR ''g'')) = Some (matches result)"
    by (auto simp: execute_def split: sum.splits option.splits)
  from findMatches_grouped [OF this assms(2)] assms(3) show ?thesis
    by (simp add: grouped_def)
qed

theorem execute_groups_witness:
  "execute sample_host (js ''(a)|(b)'') [] (js ''a'') (js ''javascript'') = Some (Inr alt_a_result) \<and>
   alt_a_match \<in> set (matches alt_a_result) \<and>
   1 < length (tl (elems alt_a_match)) \<and>
   groups alt_a_match = Some [(1, Some (js ''a'')), (2, None)]"
proof -
  have h1: "execute sample_host (js ''(a)|(b)'') [] (js ''a'') (js ''javascript'') =
              Some (Inr alt_a_result)"
    by code_simp
  have h2: "alt_a_match \<in> set (matches alt_a_result)"
    by (simp add: alt_a_result_def)
  have h3: "1 < length (tl (elems alt_a_match))"
    by (simp add: alt_a_match_def)
  have h4: "map (\<lambda>i. (i, elems alt_a_match ! i)) [1..<length (elems alt_a_match)] =
              [(1, Some (js ''a'')), (2, None)]"
    by (simp add: alt_a_match_def upt_rec)
  from execute_groups [OF h1 h2 h3] h1 h2 h3 show ?thesis
    unfolding h4 by blast
qed

section \<open>Empty matches in the global loop: the examples\<close>

text \<open>
  C4, as stated, gives exactly 3 matches for \<open>a*\<close> with the flag \<open>g\<close> on the subject
  \<open>bbb\<close>. The collection that \<open>execute\<close> returns does not have 3 matches.
\<close>

theorem execute_star_bbb_not_three:
  "map_option length (match_offsets
     (execute sample_host (js ''a*'') (js ''g'') (js ''bbb'') (js ''javascript''))) \<noteq> Some 3"
  by code_simp

text \<open>
  C4, amended. \<open>execute\<close> with \<open>a*\<close> and the flag \<open>g\<close> on the subject \<open>bbb\<close> returns, and
  the collection has exactly 4 matches, each of them the empty string, at the offsets 0,
  1, 2 and 3 (one before each \<open>b\<close> and one at the end of the subject); with \<open>x*\<close> and
  \<open>g\<close> on the subject \<open>ab\<close> it returns, and the collection has exactly 3 matches, each of
  them the empty string, at the offsets 0, 1 and 2.
\<close>

theorem execute_star_examples:
  "execute sample_host (js ''a*'') (js ''g'') (js ''bbb'') (js ''javascript'') =
     Some (Inr
       \<lparr>matches =
          [\<lparr>index = 0, elems = [Some []], groups = None\<rparr>,
           \<lparr>index = 1, elems = [Some []], groups = None\<rparr>,
           \<lparr>index = 2, elems = [Some []], groups = None\<rparr>,
           \<lparr>index = 3, elems = [Some []], groups = None\<rparr>],
        res_pattern = js ''a*'', res_flags = js ''g'', res_testString = js ''bbb'',
        res_flavor = js ''javascript''\<rparr>) \<and>
   execute sample_host (js ''x*'') (js ''g'') (js ''ab'') (js ''javascript'') =
     Some (Inr
       \<lparr>matches =
          [\<lparr>index = 0, elems = [Some []], groups = None\<rparr>,
           \<lparr>index = 1, elems = [Some []], groups = None\<rparr>,
           \<lparr>index = 2, elems = [Some []], groups = None\<rparr>],
        res_pattern = js ''x*'', res_flags = js ''g'', res_testString = js ''ab'',
        res_flavor = js ''javascript''\<rparr>)"
  by code_simp

section \<open>The substitution engine fails soft\<close>

text \<open>
  C5. For every pattern, flags, subject text and replacement template: when compiling
  the pattern with the flags fails, \<open>substitute\<close> returns the subject text as it is; it
  returns a string in every case and never throws.
\<close>

theorem substitute_fails_soft:
  assumes "RegExp native pattern flags = Inl message"
  shows "substitute native pattern flags testString replacement = testString"
  using assms by (simp add: substitute_def)

theorem substitute_fails_soft_witness:
  "RegExp sample_host (js ''('') (js ''g'') = Inl (js ''Unterminated group'') \<and>
   substitute sample_host (js ''('') (js ''g'') (js ''keep (this'') (js ''$1'') = js ''keep (this''"
proof -
  have h: "RegExp sample_host (js ''('') (js ''g'') = Inl (js ''Unterminated group'')"
    by (simp add: RegExp_def sample_host_def valid_flags_def includes_chr_def js_def cu_def)
  from substitute_fails_soft [OF h] h show ?thesis by simp
qed


section \<open>The host's search and the global loop\<close>

lemma AdvanceStringIndex_gt: "i < AdvanceStringIndex S i u"
  by (simp add: AdvanceStringIndex_def)

lemma advance_chars_ge: "i \<le> advance_chars S i u n"
proof (induction n arbitrary: i)
  case 0
  show ?case by simp
next
  case (Suc n)
  from Suc [of "AdvanceStringIndex S i u"] AdvanceStringIndex_gt [of i S u] show ?case by simp
qed

lemma advance_chars_eq_iff: "advance_chars S i u n = i \<longleftrightarrow> n = 0"
proof (cases n)
  case 0
  then show ?thesis by simp
next
  case (Suc n')
  with advance_chars_ge [of "AdvanceStringIndex S i u" S u n'] AdvanceStringIndex_gt [of i S u]
  show ?thesis by simp
qed

lemma advance_chars_units: "advance_chars S i False n = i + n"
  by (induction n arbitrary: i) (simp_all add: AdvanceStringIndex_def)

lemma input_index_cases: "input_index S k u = k \<or> (0 < k \<and> input_index S k u = k - 1)"
  by (simp add: input_index_def)

lemma input_index_units: "input_index S k False = k"
  by (simp add: input_index_def)

lemma input_index_le: "input_index S k u \<le> k"
  by (simp add: input_index_def)

lemma lead_not_trail: "is_lead c \<Longrightarrow> \<not> is_trail c"
  by (simp add: is_lead_def is_trail_def word_le_nat_alt)

lemma input_index_idem: "input_index S (input_index S k u) u = input_index S k u"
  by (auto simp: input_index_def dest: lead_not_trail)

lemma input_index_advance:
  assumes "input_index S i u = i"
  shows "input_index S (AdvanceStringIndex S i u) u = AdvanceStringIndex S i u"
  using assms by (auto simp: input_index_def AdvanceStringIndex_def dest: lead_not_trail split: if_splits)

lemma input_index_advance_chars:
  "input_index S i u = i \<Longrightarrow> input_index S (advance_chars S i u n) u = advance_chars S i u n"
  by (induction n arbitrary: i) (simp_all add: input_index_advance)

lemma builtin_search_SomeD:
  assumes "builtin_search R S lastIndex = Some (start, n, caps)"
  shows "\<exists>k. lastIndex \<le> k \<and> k \<le> length S \<and> start = input_index S k (fullUnicode R) \<and>
             rx_matcher R S start = Some (n, caps)"
  using assms
proof (induction R S lastIndex rule: builtin_search.induct)
  case (1 R S lastIndex)
  show ?case
  proof (cases "rx_matcher R S (input_index S lastIndex (fullUnicode R))")
    case None
    with "1.prems" have le: "\<not> length S < lastIndex" and ns: "\<not> sticky_flag R"
      and rec: "builtin_search R S (AdvanceStringIndex S lastIndex (fullUnicode R)) =
                  Some (start, n, caps)"
      by (auto simp: builtin_search.simps [of R S lastIndex] split: if_splits)
    from "1.IH" [OF le refl None ns rec]
    obtain k where "AdvanceStringIndex S lastIndex (fullUnicode R) \<le> k" "k \<le> length S"
      "start = input_index S k (fullUnicode R)" "rx_matcher R S start = Some (n, caps)" by blast
    with AdvanceStringIndex_gt [of lastIndex S "fullUnicode R"] show ?thesis
      by (intro exI [of _ k]) simp
  next
    case (Some a)
    with "1.prems" show ?thesis
      by (intro exI [of _ lastIndex])
         (auto simp: builtin_search.simps [of R S lastIndex] split: if_splits)
  qed
qed

lemma builtin_search_first:
  assumes "lastIndex \<le> length S"
    and "rx_matcher R S (input_index S lastIndex (fullUnicode R)) = Some (n, caps)"
  shows "builtin_search R S lastIndex = Some (input_index S lastIndex (fullUnicode R), n, caps)"
  using assms by (simp add: builtin_search.simps [of R S lastIndex])

text \<open>What a successful \<open>exec\<close> of a global or sticky expression tells.\<close>

lemma exec_SomeD:
  assumes "exec R S lastIndex = (Some m, lastIndex')" and "global_flag R \<or> sticky_flag R"
  shows "\<exists>k start n caps. lastIndex \<le> k \<and> k \<le> length S \<and>
           start = input_index S k (fullUnicode R) \<and> rx_matcher R S start = Some (n, caps) \<and>
           lastIndex' = advance_chars S start (fullUnicode R) n \<and>
           m = \<lparr>index = start, elems = Some (slice_units S start lastIndex') # caps, groups = None\<rparr>"
proof -
  from assms obtain start n caps where
    bs: "builtin_search R S lastIndex = Some (start, n, caps)" and
    li': "lastIndex' = advance_chars S start (fullUnicode R) n" and
    m: "m = \<lparr>index = start, elems = Some (slice_units S start lastIndex') # caps, groups = None\<rparr>"
    by (auto simp: exec_def Let_def split: option.splits)
  from builtin_search_SomeD [OF bs] li' m show ?thesis by blast
qed

text \<open>A state of the loop that comes back to itself: the loop never ends.\<close>

lemma findMatches_loop_stuck:
  assumes ex: "exec R S lastIndex = (Some m, lastIndex')"
    and again: "(if index m = lastIndex' then lastIndex' + 1 else lastIndex') = lastIndex"
  shows "findMatches_loop R S lastIndex acc = None"
proof (rule ccontr)
  assume "findMatches_loop R S lastIndex acc \<noteq> None"
  then obtain ms where ms: "findMatches_loop R S lastIndex acc = Some ms" by blast
  have "\<not> (R = R \<and> S = S \<and> lastIndex = lastIndex)"
  proof (rule findMatches_loop.raw_induct
      [where P = "\<lambda>R' S' li acc ms. \<not> (R' = R \<and> S' = S \<and> li = lastIndex)"])
    fix loop R' S' li acc ms
    assume IH: "\<And>R' S' li acc ms. loop R' S' li acc = Some ms \<Longrightarrow>
                  \<not> (R' = R \<and> S' = S \<and> li = lastIndex)"
      and step: "(case exec R' S' li of
                    (None, x) \<Rightarrow> Some acc
                  | (Some match, x) \<Rightarrow>
                      loop R' S' (if index match = x then x + 1 else x) (acc @ [add_groups match])) =
                 Some ms"
    show "\<not> (R' = R \<and> S' = S \<and> li = lastIndex)"
    proof
      assume eq: "R' = R \<and> S' = S \<and> li = lastIndex"
      with step ex again have "loop R S lastIndex (acc @ [add_groups m]) = Some ms" by simp
      from IH [OF this] show False by simp
    qed
  next
    show "findMatches_loop R S lastIndex acc = Some ms" by fact
  qed
  then show False by simp
qed

lemma findMatches_loop_terminates:
  assumes g: "global_flag R" and nu: "\<not> fullUnicode R"
  shows "\<exists>ms. findMatches_loop R S lastIndex acc = Some ms"
proof (induction "length S + 1 - lastIndex" arbitrary: lastIndex acc rule: less_induct)
  case less
  show ?case
  proof (cases "exec R S lastIndex")
    case (Pair r lastIndex')
    show ?thesis
    proof (cases r)
      case None
      with Pair show ?thesis by (subst findMatches_loop.simps) simp
    next
      case (Some m)
      with Pair g exec_SomeD [of R S lastIndex m lastIndex'] nu
      obtain k n where k: "lastIndex \<le> k" "k \<le> length S" "index m = k" "lastIndex' = k + n"
        by (auto simp: input_index_units advance_chars_units)
      let ?next = "if index m = lastIndex' then lastIndex' + 1 else lastIndex'"
      from k have "length S + 1 - ?next < length S + 1 - lastIndex" by auto
      from less.hyps [OF this] obtain ms where
        "findMatches_loop R S ?next (acc @ [add_groups m]) = Some ms" by blast
      with Pair Some show ?thesis by (subst findMatches_loop.simps) simp
    qed
  qed
qed

lemma createRegex_star_x_unicode: "createRegex sample_host (js ''x*'') (js ''gu'') (js ''javascript'') = Inr star_x_unicode"
  by (simp add: createRegex_def RegExp_def sample_host_def valid_flags_def includes_chr_def
        star_x_unicode_def js_def cu_def)

lemma exec_star_x_unicode_0: "exec star_x_unicode grinning_face 0 =
    (Some \<lparr>index = 0, elems = [Some []], groups = None\<rparr>, 0)"
  by (simp add: exec_def star_x_unicode_def grinning_face_def global_flag_def sticky_flag_def
        fullUnicode_def includes_chr_def builtin_search.simps input_index_def star_matcher_def
        slice_units_def js_def cu_def)

lemma exec_star_x_unicode_1: "exec star_x_unicode grinning_face 1 =
    (Some \<lparr>index = 0, elems = [Some []], groups = None\<rparr>, 0)"
  by (simp add: exec_def star_x_unicode_def grinning_face_def global_flag_def sticky_flag_def
        fullUnicode_def includes_chr_def builtin_search.simps input_index_def star_matcher_def
        is_lead_def is_trail_def slice_units_def js_def cu_def)

text \<open>
  C6 says that the global loop ends for every expression that compiles, every flags text
  that has \<open>g\<close> and every subject. Without \<open>u\<close> and \<open>v\<close> it does
  (\<open>findMatches_loop_terminates\<close>). With \<open>u\<close> it need not: for \<open>x*\<close> with the flags
  \<open>gu\<close> on a subject of one surrogate pair, the empty match at offset 0 makes the code
  set \<open>lastIndex\<close> to 1, inside the pair; \<open>exec\<close> then tries the match at the character
  that holds offset 1, which begins at offset 0, finds the same empty match and puts
  \<open>lastIndex\<close> back to 0, and the code sets it to 1 again. \<open>execute\<close> never returns.
\<close>

theorem execute_unicode_empty_match_diverges:
  "execute sample_host (js ''x*'') (js ''gu'') grinning_face (js ''javascript'') = None"
proof -
  have "findMatches_loop star_x_unicode grinning_face 1 acc = None" for acc
    by (rule findMatches_loop_stuck [OF exec_star_x_unicode_1]) simp
  then have "findMatches_loop star_x_unicode grinning_face 0 [] = None"
    by (subst findMatches_loop.simps) (simp add: exec_star_x_unicode_0)
  then show ?thesis
    apply (simp only: execute_def createRegex_star_x_unicode)
    apply (simp add: findMatches_def includes_chr_def js_def cu_def)
    done
qed

section \<open>The order of the matches\<close>

lemma index_add_groups: "index (add_groups m) = index m"
  by (simp add: add_groups_def)

lemma loop_inv_step:
  assumes inv: "loop_inv R S lastIndex acc" and g: "global_flag R"
    and ex: "exec R S lastIndex = (Some m, lastIndex')"
    and ret: "findMatches_loop R S lastIndex acc = Some ms"
  shows "loop_inv R S (if index m = lastIndex' then lastIndex' + 1 else lastIndex')
           (acc @ [add_groups m])"
proof -
  let ?u = "fullUnicode R"
  from exec_SomeD [OF ex] g obtain k start n caps where
    k: "lastIndex \<le> k" "k \<le> length S" "start = input_index S k ?u"
    and mt: "rx_matcher R S start = Some (n, caps)"
    and li': "lastIndex' = advance_chars S start ?u n"
    and m: "index m = start"
    by auto
  have boundary: "input_index S lastIndex ?u = lastIndex"
  proof (rule ccontr)
    assume nb: "input_index S lastIndex ?u \<noteq> lastIndex"
    with inv obtain caps0 where
      c0: "rx_matcher R S (input_index S lastIndex ?u) = Some (0, caps0)"
      by (auto simp: loop_inv_def)
    from nb have lt: "lastIndex < length S" and pos: "0 < lastIndex"
      and ii: "input_index S lastIndex ?u = lastIndex - 1"
      by (auto simp: input_index_def split: if_splits)
    from builtin_search_first [of lastIndex S R 0 caps0] lt c0
    have "builtin_search R S lastIndex = Some (input_index S lastIndex ?u, 0, caps0)" by simp
    with g ii have "exec R S lastIndex =
        (Some \<lparr>index = lastIndex - 1, elems = Some (slice_units S (lastIndex - 1) (lastIndex - 1)) # caps0,
               groups = None\<rparr>, lastIndex - 1)"
      by (simp add: exec_def Let_def)
    from findMatches_loop_stuck [OF this, of acc] pos ret show False by simp
  qed
  have ge: "lastIndex \<le> start"
  proof (cases "k = lastIndex")
    case True
    with k boundary show ?thesis by simp
  next
    case False
    with k input_index_cases [of S k ?u] show ?thesis by auto
  qed
  have sb: "input_index S start ?u = start"
    using k by (simp add: input_index_idem)
  let ?next = "if index m = lastIndex' then lastIndex' + 1 else lastIndex'"
  have le: "start \<le> lastIndex'" using li' advance_chars_ge by simp
  have s1: "sorted_wrt (<) (map index (acc @ [add_groups m]))"
    using inv ge m by (auto simp: loop_inv_def sorted_wrt_append index_add_groups)
  have s2: "\<forall>x\<in>set (acc @ [add_groups m]). index x < ?next"
    using inv ge m le by (auto simp: loop_inv_def index_add_groups)
  have s3: "input_index S ?next ?u = ?next \<or>
            (\<exists>caps. rx_matcher R S (input_index S ?next ?u) = Some (0, caps))"
  proof (cases "index m = lastIndex'")
    case True
    with m li' have "n = 0" by (simp add: advance_chars_eq_iff)
    with True m mt input_index_cases [of S "start + 1" ?u] show ?thesis by auto
  next
    case False
    with li' input_index_advance_chars [OF sb, of n] show ?thesis by simp
  qed
  from s1 s2 s3 show ?thesis unfolding loop_inv_def by blast
qed

lemma findMatches_loop_sorted:
  assumes "findMatches_loop R S lastIndex acc = Some ms"
  shows "findMatches_loop R S lastIndex acc = Some ms \<longrightarrow> global_flag R \<longrightarrow>
         loop_inv R S lastIndex acc \<longrightarrow> sorted_wrt (<) (map index ms)"
proof (rule findMatches_loop.raw_induct
    [where P = "\<lambda>R S lastIndex acc ms. findMatches_loop R S lastIndex acc = Some ms \<longrightarrow>
         global_flag R \<longrightarrow> loop_inv R S lastIndex acc \<longrightarrow> sorted_wrt (<) (map index ms)"])
  fix loop R S lastIndex acc ms
  assume IH: "\<And>R S lastIndex acc ms. loop R S lastIndex acc = Some ms \<Longrightarrow>
                findMatches_loop R S lastIndex acc = Some ms \<longrightarrow> global_flag R \<longrightarrow>
                loop_inv R S lastIndex acc \<longrightarrow> sorted_wrt (<) (map index ms)"
    and step: "(case exec R S lastIndex of
                  (None, x) \<Rightarrow> Some acc
                | (Some match, x) \<Rightarrow>
                    loop R S (if index match = x then x + 1 else x) (acc @ [add_groups match])) =
               Some ms"
  show "findMatches_loop R S lastIndex acc = Some ms \<longrightarrow> global_flag R \<longrightarrow>
        loop_inv R S lastIndex acc \<longrightarrow> sorted_wrt (<) (map index ms)"
  proof (intro impI)
    assume ret: "findMatches_loop R S lastIndex acc = Some ms" and g: "global_flag R"
      and inv: "loop_inv R S lastIndex acc"
    show "sorted_wrt (<) (map index ms)"
    proof (cases "exec R S lastIndex")
      case (Pair r lastIndex')
      show ?thesis
      proof (cases r)
        case None
        with Pair step inv show ?thesis by (simp add: loop_inv_def)
      next
        case (Some m)
        let ?next = "if index m = lastIndex' then lastIndex' + 1 else lastIndex'"
        from Pair Some step have l: "loop R S ?next (acc @ [add_groups m]) = Some ms" by simp
        from Pair Some ret have r: "findMatches_loop R S ?next (acc @ [add_groups m]) = Some ms"
          by (subst (asm) findMatches_loop.simps) simp
        from Pair Some have ex: "exec R S lastIndex = (Some m, lastIndex')" by simp
        from IH [OF l] r g loop_inv_step [OF inv g ex ret] show ?thesis by blast
      qed
    qed
  qed
next
  show "findMatches_loop R S lastIndex acc = Some ms" by fact
qed

lemma createRegex_flags:
  "createRegex native pattern flags flavor = Inr regex \<Longrightarrow> rx_flags regex = flags"
  by (auto simp: createRegex_def RegExp_def Let_def split: sum.splits)

text \<open>
  C7. For every subject and every flags text that has \<open>g\<close>, the matches in the
  collection that \<open>execute\<close> returns begin at strictly increasing offsets, and no match
  is in the collection twice.
\<close>

theorem execute_global_increasing:
  assumes "includes_chr flags (cu CHR ''g'')"
    and "execute native pattern flags testString flavor = Some (Inr result)"
  shows "sorted_wrt (<) (map index (matches result)) \<and> distinct (matches result)"
proof -
  from assms obtain regex where cr: "createRegex native pattern flags flavor = Inr regex"
    and fm: "findMatches_loop regex testString 0 [] = Some (matches result)"
    by (auto simp: execute_def findMatches_def split: sum.splits option.splits)
  from createRegex_flags [OF cr] assms(1) have g: "global_flag regex"
    by (simp add: global_flag_def)
  have "loop_inv regex testString 0 []"
    by (simp add: loop_inv_def input_index_def)
  with findMatches_loop_sorted [OF fm] fm g have s: "sorted_wrt (<) (map index (matches result))"
    by blast
  then have "distinct (map index (matches result))"
    by (simp add: strict_sorted_iff)
  with s show ?thesis by (simp add: distinct_map)
qed

theorem execute_global_increasing_witness:
  "includes_chr (js ''g'') (cu CHR ''g'') \<and>
   execute sample_host (js ''a*'') (js ''g'') (js ''baab'') (js ''javascript'') =
     Some (Inr star_baab_result) \<and>
   sorted_wrt (<) (map index (matches star_baab_result)) \<and>
   distinct (matches star_baab_result)"
proof -
  have h1: "includes_chr (js ''g'') (cu CHR ''g'')"
    by (simp add: includes_chr_def js_def)
  have h2: "execute sample_host (js ''a*'') (js ''g'') (js ''baab'') (js ''javascript'') =
              Some (Inr star_baab_result)"
    by code_simp
  from execute_global_increasing [OF h1 h2] h1 h2 show ?thesis by simp
qed


section \<open>Replacing with a regular expression\<close>

text \<open>The matches found from \<open>lastIndex\<close> on do not depend on the ones found before. The
  induction follows the calls of \<open>replace_collect\<close>, for any list \<open>rs\<close> in each.\<close>

lemma replace_collect_append_aux:
  fixes results :: "exec_result list"
  shows "replace_collect rx S lastIndex rs = rs @ replace_collect rx S lastIndex []"
proof (induction rx S lastIndex results arbitrary: rs rule: replace_collect.induct)
  case (1 rx S lastIndex results)
  show ?case
  proof (cases "exec rx S lastIndex")
    case (Pair r lastIndex')
    show ?thesis
    proof (cases r)
      case None
      with Pair show ?thesis
        by (simp add: replace_collect.simps [of rx S lastIndex])
    next
      case (Some result)
      show ?thesis
      proof (cases "global_flag rx")
        case False
        with Pair Some show ?thesis
          by (simp add: replace_collect.simps [of rx S lastIndex])
      next
        case True
        note g = this
        show ?thesis
        proof (cases "matched_text result = []")
          case True
          from "1.IH"(1) [OF Pair [symmetric] Some _ True] g
          have IH: "replace_collect rx S (AdvanceStringIndex S lastIndex' (fullUnicode rx)) rs' =
                rs' @ replace_collect rx S (AdvanceStringIndex S lastIndex' (fullUnicode rx)) []" for rs'
            by blast
          from IH [of "rs @ [result]"] IH [of "[result]"] Pair Some g True show ?thesis
            by (simp add: replace_collect.simps [of rx S lastIndex])
        next
          case False
          from "1.IH"(2) [OF Pair [symmetric] Some _ False] g
          have IH: "replace_collect rx S lastIndex' rs' = rs' @ replace_collect rx S lastIndex' []" for rs'
            by blast
          from IH [of "rs @ [result]"] IH [of "[result]"] Pair Some g False show ?thesis
            by (simp add: replace_collect.simps [of rx S lastIndex])
        qed
      qed
    qed
  qed
qed

lemma replace_collect_append:
  "replace_collect rx S lastIndex rs = rs @ replace_collect rx S lastIndex []"
  by (rule replace_collect_append_aux)

text \<open>The matches of \<open>replace\<close> for an expression that is global and reads code units.\<close>

lemma replace_collect_global:
  assumes g: "global_flag rx" and nu: "\<not> fullUnicode rx"
  shows "replace_collect rx S lastIndex [] = [] \<or>
         (\<exists>start n caps. lastIndex \<le> start \<and> start \<le> length S \<and>
            rx_matcher rx S start = Some (n, caps) \<and>
            replace_collect rx S lastIndex [] =
              \<lparr>index = start, elems = Some (slice_units S start (start + n)) # caps, groups = None\<rparr> #
              replace_collect rx S (if slice_units S start (start + n) = [] then start + n + 1 else start + n) [])"
proof (cases "exec rx S lastIndex")
  case (Pair r lastIndex')
  show ?thesis
  proof (cases r)
    case None
    with Pair show ?thesis by (simp add: replace_collect.simps [of rx S lastIndex])
  next
    case (Some result)
    with Pair exec_SomeD [of rx S lastIndex result lastIndex'] g nu
    obtain start n caps where st: "lastIndex \<le> start" "start \<le> length S"
      "rx_matcher rx S start = Some (n, caps)" "lastIndex' = start + n"
      "result = \<lparr>index = start, elems = Some (slice_units S start (start + n)) # caps, groups = None\<rparr>"
      by (auto simp: input_index_units advance_chars_units)
    have rc0: "replace_collect rx S lastIndex [] =
       result # replace_collect rx S
         (if matched_text result = [] then AdvanceStringIndex S lastIndex' (fullUnicode rx)
          else lastIndex') []"
      using Pair Some g replace_collect_append [of rx S _ "[result]"]
      by (simp add: replace_collect.simps [of rx S lastIndex])
    have mt: "matched_text result = slice_units S start (start + n)"
      using st(5) by (simp add: matched_text_def)
    have "replace_collect rx S lastIndex [] =
       result # replace_collect rx S (if slice_units S start (start + n) = [] then start + n + 1 else start + n) []"
      using rc0 nu st(4) unfolding mt by (simp add: AdvanceStringIndex_def)
    with st show ?thesis by blast
  qed
qed

lemma take_slice_units: "a \<le> b \<Longrightarrow> take a S @ slice_units S a b = take b S"
  using take_add [of a "b - a" S] by (simp add: slice_units_def)

lemma take_slice_units_length:
  "take (start + length (slice_units S start (start + n))) S = take (start + n) S"
  by (cases "start + n \<le> length S") (auto simp: slice_units_def min_def)

lemma length_slice_units_le: "start \<le> length S \<Longrightarrow> start + length (slice_units S start (start + n)) \<le> length S"
  by (simp add: slice_units_def)

lemma replace_identity_aux:
  assumes g: "global_flag rx" and nu: "\<not> fullUnicode rx"
    and H: "\<And>start n caps. start \<le> length S \<Longrightarrow> rx_matcher rx S start = Some (n, caps) \<Longrightarrow>
              f (slice_units S start (start + n)) caps start S = slice_units S start (start + n)"
  shows "nsp \<le> lastIndex \<Longrightarrow> nsp \<le> length S \<Longrightarrow>
         replace_finish S (foldl (replace_step S f) (take nsp S, nsp) (replace_collect rx S lastIndex [])) = S"
proof (induction "length S + 1 - lastIndex" arbitrary: lastIndex nsp rule: less_induct)
  case less
  from replace_collect_global [OF g nu, of S lastIndex]
  show ?case
  proof
    assume "replace_collect rx S lastIndex [] = []"
    with less.prems show ?thesis by (simp add: replace_finish_def)
  next
    assume "\<exists>start n caps. lastIndex \<le> start \<and> start \<le> length S \<and>
            rx_matcher rx S start = Some (n, caps) \<and>
            replace_collect rx S lastIndex [] =
              \<lparr>index = start, elems = Some (slice_units S start (start + n)) # caps, groups = None\<rparr> #
              replace_collect rx S (if slice_units S start (start + n) = [] then start + n + 1 else start + n) []"
    then obtain start n caps where st: "lastIndex \<le> start" "start \<le> length S"
      and mt: "rx_matcher rx S start = Some (n, caps)"
      and rc: "replace_collect rx S lastIndex [] =
              \<lparr>index = start, elems = Some (slice_units S start (start + n)) # caps, groups = None\<rparr> #
              replace_collect rx S (if slice_units S start (start + n) = [] then start + n + 1 else start + n) []"
      by blast
    let ?m = "slice_units S start (start + n)"
    let ?next = "if ?m = [] then start + n + 1 else start + n"
    let ?nsp = "start + length ?m"
    have step: "replace_step S f (take nsp S, nsp)
        \<lparr>index = start, elems = Some ?m # caps, groups = None\<rparr> = (take ?nsp S, ?nsp)"
    proof -
      have "take nsp S @ slice_units S nsp start @ ?m = take ?nsp S"
        using less.prems st take_slice_units [of nsp start S] take_slice_units [of start "start + n" S]
        by (simp add: take_slice_units_length flip: append_assoc)
      with less.prems st H [OF st(2) mt] show ?thesis
        by (simp add: replace_step_def matched_text_def Let_def)
    qed
    have a: "length S + 1 - ?next < length S + 1 - lastIndex"
      using st by (auto simp: slice_units_def)
    have b: "?nsp \<le> ?next" by (auto simp: slice_units_def)
    have c: "?nsp \<le> length S" using st by (simp add: length_slice_units_le)
    have "foldl (replace_step S f) (take nsp S, nsp) (replace_collect rx S lastIndex []) =
          foldl (replace_step S f) (take ?nsp S, ?nsp) (replace_collect rx S ?next [])"
      by (simp only: rc foldl_Cons step)
    with less.hyps [OF a b c] show ?thesis by (simp only:)
  qed
qed

lemma replace_with_identity:
  assumes "global_flag rx" and "\<not> fullUnicode rx"
    and "\<And>start n caps. start \<le> length S \<Longrightarrow> rx_matcher rx S start = Some (n, caps) \<Longrightarrow>
              f (slice_units S start (start + n)) caps start S = slice_units S start (start + n)"
  shows "replace_with rx S f = S"
proof -
  have "replace_finish S (foldl (replace_step S f) (take 0 S, 0) (replace_collect rx S 0 [])) = S"
    by (rule replace_identity_aux [OF assms(1,2)]) (use assms(3) in auto)
  then show ?thesis by (simp add: replace_with_def replace_build_def)
qed

lemma has_pair_iff:
  "has_pair S a b \<longleftrightarrow> (\<exists>k. char_at S k = Some a \<and> char_at S (k + 1) = Some b)"
proof
  assume "has_pair S a b"
  then obtain k where "k < length S" "k < length (tl S)" "S ! k = a" "tl S ! k = b"
    by (auto simp: has_pair_def in_set_zip)
  then have "char_at S k = Some a \<and> char_at S (k + 1) = Some b"
    by (simp add: char_at_def nth_tl)
  then show "\<exists>k. char_at S k = Some a \<and> char_at S (k + 1) = Some b" ..
next
  assume "\<exists>k. char_at S k = Some a \<and> char_at S (k + 1) = Some b"
  then obtain k where "k + 1 < length S" "S ! k = a" "S ! (k + 1) = b"
    by (auto simp: char_at_def split: if_splits)
  then have "zip S (tl S) ! k = (a, b)" "k < length (zip S (tl S))"
    by (simp_all add: nth_tl)
  then show "has_pair S a b"
    unfolding has_pair_def by (metis nth_mem)
qed

lemma pair_matcher_None: "\<not> has_pair S a b \<Longrightarrow> pair_matcher a b S start = None"
  by (auto simp: has_pair_iff pair_matcher_def)

lemma pair_matcher_SomeD:
  "pair_matcher a b S start = Some (n, caps) \<Longrightarrow> n = 2 \<and> caps = [] \<and> start + 2 \<le> length S"
  by (auto simp: pair_matcher_def char_at_def split: if_splits)

lemma exec_Some_shape:
  assumes "exec R S lastIndex = (Some r, lastIndex')"
  shows "\<exists>start e caps. start \<le> e \<and> start \<le> length S \<and>
           r = \<lparr>index = start, elems = Some (slice_units S start e) # caps, groups = None\<rparr>"
proof -
  from assms obtain li start n caps where
    bs: "builtin_search R S li = Some (start, n, caps)" and
    r: "r = \<lparr>index = start, elems = Some (slice_units S start (advance_chars S start (fullUnicode R) n)) # caps,
              groups = None\<rparr>"
    by (auto simp: exec_def Let_def split: option.splits)
  from builtin_search_SomeD [OF bs] input_index_le obtain k where
    "k \<le> length S" "start \<le> k" by blast
  with r advance_chars_ge [of start S "fullUnicode R" n] show ?thesis by auto
qed

lemma replace_single:
  assumes ng: "\<not> global_flag rx"
    and f: "\<And>matched caps position. f matched caps position S = matched"
  shows "replace_with rx S f = S"
proof (cases "exec rx S 0")
  case (Pair r lastIndex')
  show ?thesis
  proof (cases r)
    case None
    with Pair show ?thesis
      by (simp add: replace_with_def replace_build_def replace_finish_def
            replace_collect.simps [of rx S 0])
  next
    case (Some result)
    with Pair exec_Some_shape [of rx S 0 result lastIndex'] obtain start e caps where
      se: "start \<le> e" "start \<le> length S" and
      r: "result = \<lparr>index = start, elems = Some (slice_units S start e) # caps, groups = None\<rparr>"
      by auto
    have rc: "replace_collect rx S 0 [] = [result]"
      using Pair Some ng by (simp add: replace_collect.simps [of rx S 0])
    have st: "replace_step S f ([], 0) result =
        (take e S, start + length (slice_units S start e))"
      using se r f take_slice_units [of start e S]
      by (simp add: replace_step_def matched_text_def Let_def slice_units_def)
    have "replace_finish S (take e S, start + length (slice_units S start e)) = S"
      using se by (auto simp: replace_finish_def slice_units_def min_def)
    with rc st show ?thesis
      by (simp add: replace_with_def replace_build_def)
  qed
qed

lemma GetSubstitution_whole:
  "GetSubstitution matched str position caps [dollar, cu CHR ''&''] = matched"
  by (simp add: dollar_def backtick_def cu_def)

lemma RegExp_flags: "RegExp native pattern flags = Inr regex \<Longrightarrow> rx_flags regex = flags"
  by (auto simp: RegExp_def split: sum.splits)

lemma processedReplacement_whole: "processedReplacement (js ''$&'') = js ''$&''"
  by code_simp

section \<open>Replacing a match by itself\<close>

text \<open>
  C8. For every pattern that compiles with a flags text that has no \<open>g\<close>, and every
  subject, \<open>substitute\<close> with the template \<open>$&\<close> returns the subject as it is: nothing is
  replaced when the pattern matches nowhere, and the first match is replaced by itself
  otherwise.
\<close>

theorem substitute_whole_match_unchanged:
  assumes "\<not> includes_chr flags (cu CHR ''g'')"
    and "RegExp native pattern flags = Inr regex"
  shows "substitute native pattern flags subject (js ''$&'') = subject"
proof -
  from RegExp_flags [OF assms(2)] assms(1) have ng: "\<not> global_flag regex"
    by (simp add: global_flag_def)
  have t: "js ''$&'' = [dollar, cu CHR ''&'']"
    by (simp add: js_def dollar_def)
  have "replace subject regex (js ''$&'') =
        replace_with regex subject (\<lambda>matched caps position str. matched)"
    by (simp only: replace_def t GetSubstitution_whole)
  also have "\<dots> = subject"
    by (rule replace_single [OF ng]) simp
  finally have "replace subject regex (js ''$&'') = subject" .
  with assms(2) show ?thesis
    by (simp add: substitute_def processedReplacement_whole)
qed

theorem substitute_whole_match_unchanged_witness:
  "\<not> includes_chr (js ''i'') (cu CHR ''g'') \<and>
   RegExp sample_host (js ''(a)|b'') (js ''i'') =
     Inr \<lparr>rx_source = js ''(a)|b'', rx_flags = js ''i'', rx_matcher = alt_matcher\<rparr> \<and>
   substitute sample_host (js ''(a)|b'') (js ''i'') (js ''xbab'') (js ''$&'') = js ''xbab''"
proof -
  have h1: "\<not> includes_chr (js ''i'') (cu CHR ''g'')"
    by (simp add: includes_chr_def js_def cu_def)
  have h2: "RegExp sample_host (js ''(a)|b'') (js ''i'') =
     Inr \<lparr>rx_source = js ''(a)|b'', rx_flags = js ''i'', rx_matcher = alt_matcher\<rparr>"
    by (simp add: RegExp_def sample_host_def valid_flags_def includes_chr_def js_def cu_def)
  from substitute_whole_match_unchanged [OF h1 h2] h1 h2 show ?thesis by simp
qed

section \<open>The replacement template before the substitution\<close>

lemma pair_regex_flags: "global_flag (pair_regex a b)" "\<not> fullUnicode (pair_regex a b)"
  "\<not> sticky_flag (pair_regex a b)" "rx_matcher (pair_regex a b) = pair_matcher a b"
  by (simp_all add: pair_regex_def global_flag_def fullUnicode_def sticky_flag_def
        includes_chr_def js_def cu_def)

lemma pcre_regex_flags: "global_flag (pcre_regex a)" "\<not> fullUnicode (pcre_regex a)"
  "\<not> sticky_flag (pcre_regex a)" "rx_matcher (pcre_regex a) = pair_matcher backslash a"
  by (simp_all add: pcre_regex_def global_flag_def fullUnicode_def sticky_flag_def
        includes_chr_def js_def cu_def)

lemma numbered_regex_flags: "global_flag numbered_regex" "\<not> fullUnicode numbered_regex"
  "rx_matcher numbered_regex = numbered_matcher"
  by (simp_all add: numbered_regex_def global_flag_def fullUnicode_def includes_chr_def js_def cu_def)

lemma bracket_regex_flags: "global_flag bracket_regex" "\<not> fullUnicode bracket_regex"
  "rx_matcher bracket_regex = bracket_matcher"
  by (simp_all add: bracket_regex_def global_flag_def fullUnicode_def includes_chr_def js_def cu_def)

text \<open>The first call re-emits \<open>$N\<close>: it is the identity on every template.\<close>

lemma numbered_pass_identity: "replace_with numbered_regex S dollar_num = S"
proof (rule replace_with_identity)
  fix start n caps
  assume le: "start \<le> length S" and m: "rx_matcher numbered_regex S start = Some (n, caps)"
  let ?num = "takeWhile is_digit (drop (start + 1) S)"
  from m have d: "char_at S start = Some dollar" and n: "n = 1 + length ?num"
    and c: "caps = [Some ?num]"
    by (auto simp: numbered_regex_flags numbered_matcher_def Let_def split: if_splits)
  from d have lt: "start < length S" and s: "S ! start = dollar"
    by (auto simp: char_at_def split: if_splits)
  have "take (length ?num) (drop (start + 1) S) = ?num"
    by (metis takeWhile_eq_take)
  then have "slice_units S start (start + n) = dollar # ?num"
    using lt s n by (simp add: slice_units_def take_Suc_conv_app_nth Cons_nth_drop_Suc [symmetric])
  with c show "dollar_num (slice_units S start (start + n)) caps start S = slice_units S start (start + n)"
    by (simp add: dollar_num_def)
qed (simp_all add: numbered_regex_flags)

text \<open>Without \<open>${\<close> in the template the second call finds nothing.\<close>

lemma bracket_pass_identity:
  assumes "\<not> has_pair S dollar (cu CHR ''{'')"
  shows "replace_with bracket_regex S dollar_num = S"
proof (rule replace_with_identity)
  fix start n caps
  assume "rx_matcher bracket_regex S start = Some (n, caps)"
  with assms have False
    by (auto simp: bracket_regex_flags bracket_matcher_def has_pair_iff split: if_splits)
  then show "dollar_num (slice_units S start (start + n)) caps start S = slice_units S start (start + n)" ..
qed (simp_all add: bracket_regex_flags)

text \<open>The third call puts each \<open>$&\<close> back.\<close>

lemma whole_pass_identity: "replace S (pair_regex dollar (cu CHR ''&'')) [dollar, cu CHR ''&''] = S"
  unfolding replace_def
proof (rule replace_with_identity)
  fix start n caps
  show "GetSubstitution (slice_units S start (start + n)) S start caps [dollar, cu CHR ''&''] =
        slice_units S start (start + n)"
    by (rule GetSubstitution_whole)
qed (simp_all add: pair_regex_flags)

text \<open>A call whose expression matches nowhere in the subject returns the subject.\<close>

lemma pair_pass_identity:
  assumes "\<not> has_pair S a b"
  shows "replace S (pair_regex a b) template = S"
  unfolding replace_def
proof (rule replace_with_identity)
  fix start n caps
  assume "rx_matcher (pair_regex a b) S start = Some (n, caps)"
  with pair_matcher_None [OF assms, of start] have False
    by (simp add: pair_regex_flags)
  then show "GetSubstitution (slice_units S start (start + n)) S start caps template =
        slice_units S start (start + n)" ..
qed (simp_all add: pair_regex_flags)

text \<open>
  C3, as stated, says that the processed template equals the original for every
  template, each \<open>${N}\<close> included. The second call turns \<open>${1}\<close> into \<open>$1\<close>.
\<close>

theorem processedReplacement_bracket_rewritten:
  "processedReplacement (js ''${1}'') = js ''$1'' \<and> js ''$1'' \<noteq> js ''${1}''"
  by code_simp

text \<open>Without \<open>${\<close>, \<open>$`\<close> and \<open>$'\<close> in the template, the five calls change nothing.\<close>

lemma processedReplacement_plain:
  assumes "\<not> has_pair replacement dollar (cu CHR ''{'')"
    and "\<not> has_pair replacement dollar backtick"
    and "\<not> has_pair replacement dollar apostrophe"
  shows "processedReplacement replacement = replacement"
  using assms
  by (simp add: processedReplacement_def numbered_pass_identity bracket_pass_identity
        whole_pass_identity pair_pass_identity)

lemma digit_not_special:
  assumes "is_digit d"
  shows "d \<noteq> dollar" "d \<noteq> cu CHR ''{''" "d \<noteq> cu CHR ''}''" "d \<noteq> backtick" "d \<noteq> apostrophe"
    "d \<noteq> cu CHR ''&''"
  using assms by (auto simp: is_digit_def dollar_def backtick_def apostrophe_def cu_def)

lemma not_digit_brace: "\<not> is_digit (cu CHR ''}'')"
  by (simp add: is_digit_def cu_def)

lemma builtin_search_past_end: "length S < lastIndex \<Longrightarrow> builtin_search R S lastIndex = None"
  by (simp add: builtin_search.simps [of R S lastIndex])

lemma bracket_regex_not_sticky: "\<not> sticky_flag bracket_regex"
  by (simp add: sticky_flag_def bracket_regex_def includes_chr_def js_def cu_def)

text \<open>The second call on a template that is one bracketed reference.\<close>

lemma bracket_pass_rewrites:
  assumes ne: "num \<noteq> []" and dg: "\<forall>d\<in>set num. is_digit d"
  shows "replace_with bracket_regex (dollar # cu CHR ''{'' # num @ [cu CHR ''}'']) dollar_num =
         dollar # num"
proof -
  let ?S = "dollar # cu CHR ''{'' # num @ [cu CHR ''}'']"
  let ?n = "3 + length num"
  let ?r = "\<lparr>index = 0, elems = [Some ?S, Some num], groups = None\<rparr>"
  have len: "length ?S = ?n" by simp
  have tw: "takeWhile is_digit (num @ [cu CHR ''}'']) = num"
    using dg by (simp add: takeWhile_append2 not_digit_brace)
  have m0: "bracket_matcher ?S 0 = Some (?n, [Some num])"
    using ne by (simp add: bracket_matcher_def char_at_def tw nth_append)
  have mend: "bracket_matcher ?S ?n = None"
    by (simp add: bracket_matcher_def char_at_def)
  have s0: "builtin_search bracket_regex ?S 0 = Some (0, ?n, [Some num])"
    using builtin_search_first [of 0 ?S bracket_regex ?n "[Some num]"] m0
    by (simp add: bracket_regex_flags input_index_units)
  have e0: "exec bracket_regex ?S 0 = (Some ?r, ?n)"
    using s0 by (simp add: exec_def bracket_regex_flags advance_chars_units slice_units_def)
  have send: "builtin_search bracket_regex ?S ?n = None"
    using mend
    by (simp add: builtin_search.simps [of bracket_regex ?S ?n] bracket_regex_flags
          bracket_regex_not_sticky input_index_units AdvanceStringIndex_def
          builtin_search_past_end)
  have eend: "exec bracket_regex ?S ?n = (None, 0)"
    using send by (simp add: exec_def bracket_regex_flags)
  have "replace_collect bracket_regex ?S ?n [?r] = [?r]"
    using eend by (simp add: replace_collect.simps [of bracket_regex ?S ?n])
  then have rc: "replace_collect bracket_regex ?S 0 [] = [?r]"
    using e0 by (simp add: replace_collect.simps [of bracket_regex ?S 0] bracket_regex_flags
          matched_text_def)
  show ?thesis
    by (simp add: replace_with_def rc replace_build_def replace_step_def replace_finish_def
          matched_text_def dollar_num_def slice_units_def)
qed

lemma no_pair_dollar_num:
  assumes ne: "num \<noteq> []" and dg: "\<forall>d\<in>set num. is_digit d" and b: "\<not> is_digit b"
  shows "\<not> has_pair (dollar # num) dollar b"
proof
  assume "has_pair (dollar # num) dollar b"
  then have "(dollar, b) \<in> set (zip (dollar # num) num)" by (simp add: has_pair_def)
  then have "b \<in> set num" by (rule set_zip_rightD)
  with dg b show False by blast
qed

lemma processedReplacement_bracket:
  assumes "num \<noteq> []" and "\<forall>d\<in>set num. is_digit d"
  shows "processedReplacement (js ''${'' @ num @ js ''}'') = dollar # num"
proof -
  have t: "js ''${'' @ num @ js ''}'' = dollar # cu CHR ''{'' # num @ [cu CHR ''}'']"
    by (simp add: js_def dollar_def)
  have nd: "\<not> is_digit backtick" "\<not> is_digit apostrophe"
    by (simp_all add: is_digit_def backtick_def apostrophe_def)
  show ?thesis
    unfolding t processedReplacement_def numbered_pass_identity
      bracket_pass_rewrites [OF assms] whole_pass_identity
    by (simp add: pair_pass_identity no_pair_dollar_num [OF assms] nd)
qed

text \<open>The last two calls do not put \<open>$`\<close> and \<open>$'\<close> back: the host reads the
  replacement strings \<open>'$`'\<close> and \<open>"$'"\<close> as the text before and after the match.\<close>

lemma processedReplacement_before_after:
  "processedReplacement (js ''a$'' @ [backtick] @ js ''b'') = js ''aab'' \<and>
   processedReplacement (js ''a$'' @ [apostrophe] @ js ''b'') = js ''abb''"
  by code_simp

text \<open>The second call rewrites every bracketed reference, wherever it stands in the
  template.\<close>

lemma char_at_drop: "char_at (drop k S) j = char_at S (k + j)"
  by (auto simp: char_at_def)

lemma char_at_via_drop: "char_at T n = (case drop n T of [] \<Rightarrow> None | e # _ \<Rightarrow> Some e)"
  by (auto simp: char_at_def Cons_nth_drop_Suc [symmetric] split: list.splits)

lemma bracket_matcher_drop: "bracket_matcher S k = bracket_matcher (drop k S) 0"
  by (simp add: bracket_matcher_def char_at_drop add.assoc)

lemma char_at_takeWhile:
  "char_at xs (length (takeWhile P xs)) = (case dropWhile P xs of [] \<Rightarrow> None | e # _ \<Rightarrow> Some e)"
  by (simp add: char_at_via_drop dropWhile_eq_drop)

lemma bracket_matcher_ref:
  "bracket_matcher T 0 =
     (case bracket_ref T of Some (num, rest) \<Rightarrow> Some (3 + length num, [Some num]) | None \<Rightarrow> None)"
proof (cases T)
  case Nil
  then show ?thesis by (simp add: bracket_matcher_def bracket_ref_def char_at_def)
next
  case (Cons c T')
  note T = this
  show ?thesis
  proof (cases T')
    case Nil
    with T show ?thesis by (simp add: bracket_matcher_def bracket_ref_def char_at_def)
  next
    case (Cons b after)
    let ?num = "takeWhile is_digit after"
    have c0: "char_at T 0 = Some c" and c1: "char_at T (0 + 1) = Some b"
      and dr: "drop (0 + 2) T = after"
      using T Cons by (simp_all add: char_at_def)
    have "char_at T (0 + 2 + length ?num) = char_at after (length ?num)"
      using T Cons by (simp add: char_at_def)
    then have c2: "char_at T (0 + 2 + length ?num) =
        (case dropWhile is_digit after of [] \<Rightarrow> None | e # _ \<Rightarrow> Some e)"
      by (simp only: char_at_takeWhile)
    have "bracket_matcher T 0 =
        (if c = dollar \<and> b = cu CHR ''{'' then
           if ?num \<noteq> [] \<and>
              (case dropWhile is_digit after of [] \<Rightarrow> None | e # _ \<Rightarrow> Some e) = Some (cu CHR ''}'')
           then Some (3 + length ?num, [Some ?num]) else None
         else None)"
      unfolding bracket_matcher_def c0 c1 dr Let_def c2 by simp
    also have "\<dots> = (case bracket_ref T of Some (num, rest) \<Rightarrow> Some (3 + length num, [Some num])
                        | None \<Rightarrow> None)"
    proof -
      define dw where "dw = dropWhile is_digit after"
      define num where "num = takeWhile is_digit after"
      have "bracket_ref T =
          (if c = dollar \<and> b = cu CHR ''{'' then
             (case dw of
                e # rest \<Rightarrow> if num \<noteq> [] \<and> e = cu CHR ''}'' then Some (num, rest) else None
              | [] \<Rightarrow> None)
           else None)"
        unfolding bracket_ref_def dw_def num_def using T Cons by simp
      then show ?thesis
        unfolding dw_def [symmetric] num_def [symmetric] by (cases dw) auto
    qed
    finally show ?thesis .
  qed
qed

lemma bracket_ref_SomeD:
  assumes "bracket_ref T = Some (num, rest)"
  shows "T = dollar # cu CHR ''{'' # num @ cu CHR ''}'' # rest" "num \<noteq> []" "\<forall>d\<in>set num. is_digit d"
proof -
  from assms obtain after where T: "T = dollar # cu CHR ''{'' # after"
    and d: "dropWhile is_digit after = cu CHR ''}'' # rest"
    and n: "num = takeWhile is_digit after" "num \<noteq> []"
    by (auto simp: bracket_ref_def split: list.splits if_splits)
  from takeWhile_dropWhile_id [of is_digit after] d n have "after = num @ cu CHR ''}'' # rest"
    by simp
  with T show "T = dollar # cu CHR ''{'' # num @ cu CHR ''}'' # rest" by simp
  show "num \<noteq> []" by fact
  from n show "\<forall>d\<in>set num. is_digit d" by (auto dest: set_takeWhileD)
qed

lemma unbrace_Nil: "unbrace [] = []"
  by (simp add: unbrace.simps [of "[]"] bracket_ref_def)

lemma unbrace_ref: "bracket_ref T = Some (num, rest) \<Longrightarrow> unbrace T = dollar # num @ unbrace rest"
  by (simp add: unbrace.simps [of T])

lemma unbrace_Cons: "bracket_ref (c # T) = None \<Longrightarrow> unbrace (c # T) = c # unbrace T"
  by (simp add: unbrace.simps [of "c # T"])

text \<open>Where the expression does not match, the search goes on one code unit later.\<close>

lemma replace_collect_skip:
  assumes g: "global_flag R" and ns: "\<not> sticky_flag R" and nu: "\<not> fullUnicode R"
    and k: "k \<le> length S" and m: "rx_matcher R S k = None"
  shows "replace_collect R S k rs = replace_collect R S (k + 1) rs"
proof -
  have "builtin_search R S k = builtin_search R S (k + 1)"
    using k m ns nu
    by (simp add: builtin_search.simps [of R S k] input_index_units AdvanceStringIndex_def)
  then have "exec R S k = exec R S (k + 1)"
    using g by (simp add: exec_def split: option.splits)
  then show ?thesis
    by (simp add: replace_collect.simps [of R S k] replace_collect.simps [of R S "Suc k"])
qed

lemma replace_collect_hit:
  assumes g: "global_flag R" and nu: "\<not> fullUnicode R"
    and m: "rx_matcher R S k = Some (n, caps)" and n: "0 < n" "k + n \<le> length S"
  shows "replace_collect R S k [] =
           \<lparr>index = k, elems = Some (slice_units S k (k + n)) # caps, groups = None\<rparr> #
           replace_collect R S (k + n) []"
proof -
  let ?r = "\<lparr>index = k, elems = Some (slice_units S k (k + n)) # caps, groups = None\<rparr>"
  have "builtin_search R S k = Some (k, n, caps)"
    using builtin_search_first [of k S R n caps] m n nu by (simp add: input_index_units)
  then have e: "exec R S k = (Some ?r, k + n)"
    using g nu by (simp add: exec_def advance_chars_units Let_def)
  have ne: "matched_text ?r \<noteq> []"
    using n by (simp add: matched_text_def slice_units_def)
  have "replace_collect R S k [] = replace_collect R S (k + n) [?r]"
    using e g ne by (simp add: replace_collect.simps [of R S k])
  also have "\<dots> = ?r # replace_collect R S (k + n) []"
    using replace_collect_append [of R S "k + n" "[?r]"] by simp
  finally show ?thesis .
qed

lemma replace_collect_past_end:
  "global_flag R \<Longrightarrow> length S < k \<Longrightarrow> replace_collect R S k rs = rs"
  by (simp add: replace_collect.simps [of R S k] exec_def builtin_search_past_end)

text \<open>The second call, from the offset \<open>k\<close> on, when the result is complete up to \<open>nsp\<close>.\<close>

lemma bracket_pass_aux:
  "nsp \<le> k \<Longrightarrow> k \<le> length S \<Longrightarrow>
   replace_finish S (foldl (replace_step S dollar_num) (acc, nsp) (replace_collect bracket_regex S k [])) =
   acc @ slice_units S nsp k @ unbrace (drop k S)"
proof (induction "length S - k" arbitrary: k nsp acc rule: less_induct)
  case less
  note g = bracket_regex_flags(1) and nu = bracket_regex_flags(2) and ns = bracket_regex_not_sticky
  have mk: "rx_matcher bracket_regex S k =
      (case bracket_ref (drop k S) of Some (num, rest) \<Rightarrow> Some (3 + length num, [Some num]) | None \<Rightarrow> None)"
    using bracket_matcher_drop [of S k] bracket_matcher_ref [of "drop k S"]
    by (simp add: bracket_regex_flags)
  show ?case
  proof (cases "bracket_ref (drop k S)")
    case None
    with mk have m: "rx_matcher bracket_regex S k = None" by simp
    have skip: "replace_collect bracket_regex S k [] = replace_collect bracket_regex S (k + 1) []"
      by (rule replace_collect_skip [OF g ns nu less.prems(2) m])
    show ?thesis
    proof (cases "k = length S")
      case True
      then have "replace_collect bracket_regex S k [] = []"
        using skip g by (simp add: replace_collect_past_end)
      with True less.prems show ?thesis
        by (auto simp: replace_finish_def slice_units_def unbrace_Nil)
    next
      case False
      with less.prems have lt: "k < length S" by simp
      then have d: "drop k S = S ! k # drop (k + 1) S"
        by (simp add: Cons_nth_drop_Suc)
      with None have u: "unbrace (drop k S) = S ! k # unbrace (drop (k + 1) S)"
        by (simp add: unbrace_Cons)
      have s: "slice_units S nsp k @ [S ! k] = slice_units S nsp (k + 1)"
        using less.prems lt by (simp add: slice_units_def take_Suc_conv_app_nth Suc_diff_le)
      have "length S - (k + 1) < length S - k" using lt by simp
      from less.hyps [OF this, of nsp acc] less.prems lt
      have "replace_finish S (foldl (replace_step S dollar_num) (acc, nsp)
                (replace_collect bracket_regex S (k + 1) [])) =
            acc @ slice_units S nsp (k + 1) @ unbrace (drop (k + 1) S)"
        by simp
      with skip u s show ?thesis by (simp flip: s)
    qed
  next
    case (Some a)
    then obtain num rest where br: "bracket_ref (drop k S) = Some (num, rest)"
      by (cases a) simp
    let ?n = "3 + length num"
    let ?r = "\<lparr>index = k, elems = [Some (slice_units S k (k + ?n)), Some num], groups = None\<rparr>"
    from bracket_ref_SomeD(1) [OF br] have dk: "drop k S = dollar # cu CHR ''{'' # num @ cu CHR ''}'' # rest" .
    then have "length (drop k S) = ?n + length rest" by simp
    then have fit: "k + ?n \<le> length S" and rest_len: "length rest = length S - (k + ?n)"
      by simp_all
    have "drop ?n (drop k S) = rest" unfolding dk by (simp add: numeral_3_eq_3)
    then have rest: "rest = drop (k + ?n) S" by (simp add: add.commute)
    from mk br have m: "rx_matcher bracket_regex S k = Some (?n, [Some num])" by simp
    have hit: "replace_collect bracket_regex S k [] = ?r # replace_collect bracket_regex S (k + ?n) []"
      using replace_collect_hit [OF g nu m _ fit] by simp
    have lm: "length (slice_units S k (k + ?n)) = ?n"
      using fit by (simp add: slice_units_def)
    have step: "replace_step S dollar_num (acc, nsp) ?r =
                (acc @ slice_units S nsp k @ dollar # num, k + ?n)"
      using less.prems lm by (simp add: replace_step_def matched_text_def Let_def dollar_num_def)
    have "length S - (k + ?n) < length S - k" using fit by simp
    from less.hyps [OF this, of "k + ?n" "acc @ slice_units S nsp k @ dollar # num"] fit
    have "replace_finish S (foldl (replace_step S dollar_num)
              (acc @ slice_units S nsp k @ dollar # num, k + ?n)
              (replace_collect bracket_regex S (k + ?n) [])) =
          acc @ slice_units S nsp k @ dollar # num @ unbrace rest"
      by (simp add: rest slice_units_def)
    moreover have "unbrace (drop k S) = dollar # num @ unbrace rest"
      by (rule unbrace_ref [OF br])
    ultimately show ?thesis
      by (simp only: hit foldl_Cons step)
  qed
qed

lemma bracket_pass_unbrace: "replace_with bracket_regex S dollar_num = unbrace S"
  using bracket_pass_aux [of 0 0 S "[]"]
  by (simp add: replace_with_def replace_build_def slice_units_def)

lemma has_pair_Cons:
  "has_pair (x # T) a b \<longleftrightarrow> (x = a \<and> T \<noteq> [] \<and> hd T = b) \<or> has_pair T a b"
  by (cases T) (auto simp: has_pair_def)

lemma has_pair_Nil: "\<not> has_pair [] a b"
  by (simp add: has_pair_def)

lemma has_pair_append_other:
  "\<forall>d\<in>set xs. d \<noteq> a \<Longrightarrow> has_pair (xs @ T) a b = has_pair T a b"
  by (induction xs) (simp_all add: has_pair_Cons)

lemma has_pair_suffix: "has_pair T a b \<Longrightarrow> has_pair (xs @ T) a b"
  by (induction xs) (simp_all add: has_pair_Cons)

lemma unbrace_hd: "(unbrace T = [] \<longleftrightarrow> T = []) \<and> (T \<noteq> [] \<longrightarrow> hd (unbrace T) = hd T)"
proof (cases "bracket_ref T")
  case None
  then show ?thesis by (cases T) (simp_all add: unbrace_Nil unbrace_Cons)
next
  case (Some a)
  then obtain num rest where br: "bracket_ref T = Some (num, rest)" by (cases a) simp
  from bracket_ref_SomeD(1) [OF br] unbrace_ref [OF br] show ?thesis by simp
qed

text \<open>The rewriting brings in no dollar sign followed by anything but a digit.\<close>

lemma unbrace_has_pair:
  assumes nd: "\<not> is_digit b"
  shows "has_pair (unbrace T) dollar b \<Longrightarrow> has_pair T dollar b"
proof (induction T rule: unbrace.induct)
  case (1 template)
  show ?case
  proof (cases "bracket_ref template")
    case None
    show ?thesis
    proof (cases template)
      case Nil
      with "1.prems" show ?thesis by (simp add: unbrace_Nil)
    next
      case (Cons c rest)
      with None have u: "unbrace template = c # unbrace rest" by (simp add: unbrace_Cons)
      from "1.IH"(1) [OF None Cons] have ih: "has_pair (unbrace rest) dollar b \<Longrightarrow> has_pair rest dollar b" .
      from "1.prems" u have "(c = dollar \<and> unbrace rest \<noteq> [] \<and> hd (unbrace rest) = b) \<or>
          has_pair (unbrace rest) dollar b"
        by (simp add: has_pair_Cons)
      then have "(c = dollar \<and> rest \<noteq> [] \<and> hd rest = b) \<or> has_pair rest dollar b"
        using ih unbrace_hd [of rest] by auto
      with Cons show ?thesis by (simp add: has_pair_Cons)
    qed
  next
    case (Some a)
    then obtain num rest where br: "bracket_ref template = Some (num, rest)" by (cases a) simp
    note d = bracket_ref_SomeD [OF br]
    from "1.IH"(2) [OF br refl] have ih: "has_pair (unbrace rest) dollar b \<Longrightarrow> has_pair rest dollar b" .
    from d(2) have hn: "hd (num @ unbrace rest) = hd num" "hd num \<in> set num" by simp_all
    with d(3) have "is_digit (hd num)" by blast
    with nd have "hd num \<noteq> b" by auto
    moreover have "\<forall>x\<in>set num. x \<noteq> dollar" using d(3) digit_not_special(1) by blast
    ultimately have "has_pair (dollar # num @ unbrace rest) dollar b = has_pair (unbrace rest) dollar b"
      using hn by (simp add: has_pair_Cons has_pair_append_other)
    with "1.prems" unbrace_ref [OF br] have "has_pair (unbrace rest) dollar b" by simp
    then have "has_pair rest dollar b" by (rule ih)
    then have "has_pair ((dollar # cu CHR ''{'' # num @ [cu CHR ''}'']) @ rest) dollar b"
      by (rule has_pair_suffix)
    with d(1) show ?thesis by simp
  qed
qed

lemma backtick_not_digit: "\<not> is_digit backtick"
  by (simp add: is_digit_def backtick_def)

lemma apostrophe_not_digit: "\<not> is_digit apostrophe"
  by (simp add: is_digit_def apostrophe_def)

text \<open>A template without \<open>${\<close> has no bracketed reference, and the rewriting copies it.\<close>

lemma unbrace_plain:
  "\<not> has_pair T dollar (cu CHR ''{'') \<Longrightarrow> unbrace T = T"
proof (induction T)
  case Nil
  show ?case by (rule unbrace_Nil)
next
  case (Cons c T)
  have "bracket_ref (c # T) = None"
  proof (cases "bracket_ref (c # T)")
    case (Some a)
    then obtain num rest where br: "bracket_ref (c # T) = Some (num, rest)" by (cases a) simp
    from bracket_ref_SomeD(1) [OF br] Cons.prems show ?thesis by (simp add: has_pair_Cons)
  qed simp
  moreover from Cons.prems have "\<not> has_pair T dollar (cu CHR ''{'')"
    by (simp add: has_pair_Cons)
  ultimately show ?case using Cons.IH by (simp add: unbrace_Cons)
qed

text \<open>
  C3, amended. For every replacement template in which no dollar sign stands directly
  before \<open>`\<close> or \<open>'\<close>, the processed template that is passed to the native replace is
  the original template with each bracketed reference \<open>${N}\<close>, where \<open>N\<close> is one or more
  decimal digits, rewritten to the plain form \<open>$N\<close>, and with everything else put back as
  it was: each \<open>$N\<close>, each \<open>$&\<close>, and text that only resembles a bracketed reference,
  such as \<open>${}\<close> or \<open>${a}\<close>.
\<close>

theorem processedReplacement_unbrace:
  assumes "\<not> has_pair template dollar backtick" and "\<not> has_pair template dollar apostrophe"
  shows "processedReplacement template = unbrace template"
proof -
  from assms have "\<not> has_pair (unbrace template) dollar backtick"
    and "\<not> has_pair (unbrace template) dollar apostrophe"
    using unbrace_has_pair [OF backtick_not_digit] unbrace_has_pair [OF apostrophe_not_digit]
    by blast+
  then show ?thesis
    by (simp add: processedReplacement_def numbered_pass_identity bracket_pass_unbrace
        whole_pass_identity pair_pass_identity)
qed

theorem processedReplacement_unbrace_witness:
  "\<not> has_pair (js ''a${1}b${22}c$3$&${}${a}'') dollar backtick \<and>
   \<not> has_pair (js ''a${1}b${22}c$3$&${}${a}'') dollar apostrophe \<and>
   processedReplacement (js ''a${1}b${22}c$3$&${}${a}'') = js ''a$1b$22c$3$&${}${a}'' \<and>
   unbrace (js ''a${1}b${22}c$3$&${}${a}'') = js ''a$1b$22c$3$&${}${a}''"
proof -
  have a: "\<not> has_pair (js ''a${1}b${22}c$3$&${}${a}'') dollar backtick"
    by code_simp
  have b: "\<not> has_pair (js ''a${1}b${22}c$3$&${}${a}'') dollar apostrophe"
    by code_simp
  have u: "unbrace (js ''a${1}b${22}c$3$&${}${a}'') = js ''a$1b$22c$3$&${}${a}''"
    by code_simp
  from processedReplacement_unbrace [OF a b] u a b show ?thesis by simp
qed

section \<open>The flavour and the substitution engine\<close>

lemma builtin_search_finds:
  assumes ns: "\<not> sticky_flag R" and nu: "\<not> fullUnicode R"
    and m: "rx_matcher R S k = Some x" and k: "k \<le> length S"
  shows "lastIndex \<le> k \<Longrightarrow> builtin_search R S lastIndex \<noteq> None"
proof (induction "k - lastIndex" arbitrary: lastIndex)
  case 0
  with m k nu show ?case
    by (cases x) (simp add: builtin_search.simps [of R S lastIndex] input_index_units)
next
  case (Suc d)
  then have lt: "lastIndex < k" by simp
  show ?case
  proof (cases "rx_matcher R S lastIndex")
    case None
    from Suc.hyps(1) [of "lastIndex + 1"] Suc.hyps(2) lt
    have "builtin_search R S (lastIndex + 1) \<noteq> None" by simp
    with None ns nu lt k show ?thesis
      by (simp add: builtin_search.simps [of R S lastIndex] input_index_units AdvanceStringIndex_def)
  next
    case (Some y)
    with nu lt k show ?thesis
      by (cases y) (simp add: builtin_search.simps [of R S lastIndex] input_index_units)
  qed
qed

lemma replace_collect_nonempty:
  assumes "\<not> sticky_flag R" and "\<not> fullUnicode R"
    and "rx_matcher R S k = Some x" and "k \<le> length S" and g: "global_flag R"
  shows "replace_collect R S 0 [] \<noteq> []"
proof -
  from builtin_search_finds [OF assms(1-4), of 0] obtain start n caps where
    "builtin_search R S 0 = Some (start, n, caps)" by auto
  then obtain r lastIndex' where ex: "exec R S 0 = (Some r, lastIndex')"
    by (simp add: exec_def Let_def)
  have "replace_collect R S lastIndex' [r] \<noteq> []"
    "replace_collect R S (AdvanceStringIndex S lastIndex' (fullUnicode R)) [r] \<noteq> []"
    using replace_collect_append [of R S _ "[r]"] by simp_all
  with ex g show ?thesis
    by (simp add: replace_collect.simps [of R S 0])
qed

text \<open>When every replacement is shorter than the text it replaces, the result is shorter
  than the subject by at least one code unit for each match.\<close>

lemma replace_shrink_aux:
  assumes g: "global_flag rx" and nu: "\<not> fullUnicode rx"
    and H: "\<And>start n caps. rx_matcher rx S start = Some (n, caps) \<Longrightarrow>
              start + n \<le> length S \<and> length (f (slice_units S start (start + n)) caps start S) < n"
  shows "nsp \<le> lastIndex \<Longrightarrow> nsp \<le> length S \<Longrightarrow>
         length (replace_finish S (foldl (replace_step S f) (acc, nsp) (replace_collect rx S lastIndex []))) +
         length (replace_collect rx S lastIndex []) \<le> length acc + (length S - nsp)"
proof (induction "length S + 1 - lastIndex" arbitrary: lastIndex nsp acc rule: less_induct)
  case less
  from replace_collect_global [OF g nu, of S lastIndex]
  show ?case
  proof
    assume "replace_collect rx S lastIndex [] = []"
    with less.prems show ?thesis by (simp add: replace_finish_def)
  next
    assume "\<exists>start n caps. lastIndex \<le> start \<and> start \<le> length S \<and>
            rx_matcher rx S start = Some (n, caps) \<and>
            replace_collect rx S lastIndex [] =
              \<lparr>index = start, elems = Some (slice_units S start (start + n)) # caps, groups = None\<rparr> #
              replace_collect rx S (if slice_units S start (start + n) = [] then start + n + 1 else start + n) []"
    then obtain start n caps where st: "lastIndex \<le> start" "start \<le> length S"
      and mt: "rx_matcher rx S start = Some (n, caps)"
      and rc: "replace_collect rx S lastIndex [] =
              \<lparr>index = start, elems = Some (slice_units S start (start + n)) # caps, groups = None\<rparr> #
              replace_collect rx S (if slice_units S start (start + n) = [] then start + n + 1 else start + n) []"
      by blast
    let ?m = "slice_units S start (start + n)"
    let ?r = "f ?m caps start S"
    let ?next = "if ?m = [] then start + n + 1 else start + n"
    let ?acc = "acc @ slice_units S nsp start @ ?r"
    from H [OF mt] have fit: "start + n \<le> length S" and short: "length ?r < n" by simp_all
    from fit have lm: "length ?m = n" by (simp add: slice_units_def)
    have step: "replace_step S f (acc, nsp)
        \<lparr>index = start, elems = Some ?m # caps, groups = None\<rparr> = (?acc, start + n)"
      using less.prems st lm by (simp add: replace_step_def matched_text_def Let_def)
    have a: "length S + 1 - ?next < length S + 1 - lastIndex" using st short by auto
    have b: "start + n \<le> ?next" by simp
    have fold: "foldl (replace_step S f) (acc, nsp) (replace_collect rx S lastIndex []) =
          foldl (replace_step S f) (?acc, start + n) (replace_collect rx S ?next [])"
      by (simp only: rc foldl_Cons step)
    have len: "length (replace_collect rx S lastIndex []) = Suc (length (replace_collect rx S ?next []))"
      by (subst rc) simp
    have "length ?acc + (length S - (start + n)) < length acc + (length S - nsp)"
      using less.prems st fit short by (simp add: slice_units_def)
    with less.hyps [OF a b fit, of ?acc] show ?thesis
      unfolding fold len by linarith
  qed
qed

lemma pcre_pass:
  "length (replace S (pcre_regex a) [c]) \<le> length S"
  "has_pair S backslash a \<Longrightarrow> length (replace S (pcre_regex a) [c]) < length S"
  "\<not> has_pair S backslash a \<Longrightarrow> replace S (pcre_regex a) [c] = S"
proof -
  let ?f = "\<lambda>matched caps position str. GetSubstitution matched str position caps [c]"
  have H: "start + n \<le> length S \<and> length (?f (slice_units S start (start + n)) caps start S) < n"
    if "rx_matcher (pcre_regex a) S start = Some (n, caps)" for start n caps
    using that pair_matcher_SomeD [of backslash a S start n caps] by (simp add: pcre_regex_flags)
  have aux: "length (replace S (pcre_regex a) [c]) + length (replace_collect (pcre_regex a) S 0 [])
               \<le> length S"
    using replace_shrink_aux [of "pcre_regex a" S ?f 0 0 "[]"] H
    by (simp add: replace_def replace_with_def replace_build_def pcre_regex_flags)
  then show "length (replace S (pcre_regex a) [c]) \<le> length S" by simp
  show "length (replace S (pcre_regex a) [c]) < length S" if "has_pair S backslash a"
  proof -
    from that obtain k where k: "char_at S k = Some backslash" "char_at S (k + 1) = Some a"
      by (auto simp: has_pair_iff)
    then have "rx_matcher (pcre_regex a) S k = Some (2, [])" "k \<le> length S"
      by (auto simp: pcre_regex_flags pair_matcher_def char_at_def split: if_splits)
    from replace_collect_nonempty [OF pcre_regex_flags(3) pcre_regex_flags(2) this pcre_regex_flags(1)]
    have "length (replace_collect (pcre_regex a) S 0 []) > 0" by simp
    with aux show ?thesis by linarith
  qed
  show "replace S (pcre_regex a) [c] = S" if "\<not> has_pair S backslash a"
    unfolding replace_def
  proof (rule replace_with_identity)
    fix start n caps
    assume "rx_matcher (pcre_regex a) S start = Some (n, caps)"
    with pair_matcher_None [OF that, of start] have False
      by (simp add: pcre_regex_flags)
    then show "GetSubstitution (slice_units S start (start + n)) S start caps [c] =
          slice_units S start (start + n)" ..
  qed (simp_all add: pcre_regex_flags)
qed

lemma convertPCREToJS_changes:
  assumes "has_pair pattern backslash (cu CHR ''A'') \<or> has_pair pattern backslash (cu CHR ''Z'') \<or>
           has_pair pattern backslash (cu CHR ''z'')"
  shows "length (convertPCREToJS pattern) < length pattern"
proof -
  let ?p1 = "replace pattern (pcre_regex (cu CHR ''A'')) [cu CHR ''^'']"
  let ?p2 = "replace ?p1 (pcre_regex (cu CHR ''Z'')) [cu CHR ''$'']"
  let ?p3 = "replace ?p2 (pcre_regex (cu CHR ''z'')) [cu CHR ''$'']"
  have l1: "length ?p1 \<le> length pattern" and l2: "length ?p2 \<le> length ?p1"
    and l3: "length ?p3 \<le> length ?p2"
    by (rule pcre_pass(1))+
  have "length ?p3 < length pattern"
  proof (cases "has_pair pattern backslash (cu CHR ''A'')")
    case True
    then have "length ?p1 < length pattern" by (rule pcre_pass(2))
    with l2 l3 show ?thesis by linarith
  next
    case False
    then have p1: "?p1 = pattern" by (rule pcre_pass(3))
    show ?thesis
    proof (cases "has_pair pattern backslash (cu CHR ''Z'')")
      case True
      then have "length (replace pattern (pcre_regex (cu CHR ''Z'')) [cu CHR ''$'']) < length pattern"
        by (rule pcre_pass(2))
      with l3 p1 show ?thesis by simp
    next
      case nz: False
      then have p2: "replace pattern (pcre_regex (cu CHR ''Z'')) [cu CHR ''$''] = pattern"
        by (rule pcre_pass(3))
      from assms False nz have "has_pair pattern backslash (cu CHR ''z'')" by simp
      then have "length (replace pattern (pcre_regex (cu CHR ''z'')) [cu CHR ''$'']) < length pattern"
        by (rule pcre_pass(2))
      with p1 p2 show ?thesis by simp
    qed
  qed
  then show ?thesis by (simp add: convertPCREToJS_def js_def)
qed

text \<open>
  C10. \<open>substitute\<close> has no flavour: for every pattern, flags, subject and template it
  hands the pattern text to the host's compiler as it is. For a pattern that has \<open>\A\<close>,
  \<open>\Z\<close> or \<open>\z\<close>, \<open>createRegex\<close> with the flavour \<open>pcre\<close> hands over the converted
  pattern, and this is a different text: the two engines compile different expressions
  from the same inputs.
\<close>

theorem substitute_no_flavor_rewriting:
  "substitute native pattern flags testString replacement =
     (case native pattern flags of
        Inl message \<Rightarrow> testString
      | Inr m \<Rightarrow> replace testString
                  \<lparr>rx_source = pattern, rx_flags = flags, rx_matcher = m\<rparr>
                  (processedReplacement replacement)) \<and>
   (has_pair pattern backslash (cu CHR ''A'') \<or> has_pair pattern backslash (cu CHR ''Z'') \<or>
    has_pair pattern backslash (cu CHR ''z'') \<longrightarrow>
    createRegex native pattern flags (js ''pcre'') =
      (case native (convertPCREToJS pattern) flags of
         Inl message \<Rightarrow> Inl (js ''Invalid regular expression: '' @ message)
       | Inr m \<Rightarrow> Inr \<lparr>rx_source = convertPCREToJS pattern, rx_flags = flags, rx_matcher = m\<rparr>) \<and>
    convertPCREToJS pattern \<noteq> pattern)"
proof -
  have "convertPCREToJS pattern \<noteq> pattern"
    if "has_pair pattern backslash (cu CHR ''A'') \<or> has_pair pattern backslash (cu CHR ''Z'') \<or>
        has_pair pattern backslash (cu CHR ''z'')"
    using convertPCREToJS_changes [OF that] by auto
  then show ?thesis
    by (simp add: substitute_def createRegex_def RegExp_def split: sum.splits)
qed

theorem substitute_no_flavor_rewriting_witness:
  "has_pair pcre_sample backslash (cu CHR ''A'') \<and>
   convertPCREToJS pcre_sample \<noteq> pcre_sample \<and>
   createRegex sample_host pcre_sample [] (js ''pcre'') =
     (case sample_host (convertPCREToJS pcre_sample) [] of
        Inl message \<Rightarrow> Inl (js ''Invalid regular expression: '' @ message)
      | Inr m \<Rightarrow> Inr \<lparr>rx_source = convertPCREToJS pcre_sample, rx_flags = [], rx_matcher = m\<rparr>)"
proof -
  have h: "has_pair pcre_sample backslash (cu CHR ''A'')"
    by (simp add: has_pair_def pcre_sample_def js_def cu_def backslash_def)
  with substitute_no_flavor_rewriting [of sample_host pcre_sample "[]" "[]" "[]"]
  show ?thesis by blast
qed

end
